theory Spec2Isabelle
  imports Main
begin

section \<open>Values of the host language\<close>

text \<open>
  The program is \<^verbatim>\<open>src/index.ts\<close>: the function \<^verbatim>\<open>onePromise\<close>, its inner
  asynchronous function \<^verbatim>\<open>next\<close>, and \<^verbatim>\<open>nextContext\<close> with the getter \<^verbatim>\<open>signal\<close>.
  JavaScript values are abstracted to the cases the code distinguishes: \<^verbatim>\<open>typeof v\<close>
  is \<^verbatim>\<open>"function"\<close> or not, a value awaited is a native promise or not. Promises,
  functions and abort signals are objects with an identity (a natural number).
\<close>

datatype val =
    Undefined
  | Null
  | Str string
  | Num int
  | PromiseV nat
  | FunctionV nat
  | SignalV nat
  | OnePromiseAbortError

fun typeof :: "val \<Rightarrow> string" where
  "typeof Undefined = ''undefined''"
| "typeof (Str _) = ''string''"
| "typeof (Num _) = ''number''"
| "typeof (FunctionV _) = ''function''"
| "typeof _ = ''object''"

text \<open>How an awaited operation ends: with a value, or with a reason.\<close>

datatype outcome = Fulfilled val | Rejected val

section \<open>The data model of the source\<close>

text \<open>
  \<^verbatim>\<open>type PromiseRef = { isCurrent: boolean; abortController: AbortController | null }\<close>.
  The controller is held by reference: the field is the address of the controller
  in the store of controllers, so that identity of the handle can be stated.
\<close>

record PromiseRef =
  isCurrent :: bool
  abortController :: "nat option"

text \<open>
  The host's \<^verbatim>\<open>AbortController\<close>, reduced to what its signal shows: \<^verbatim>\<open>signal.aborted\<close>
  and \<^verbatim>\<open>signal.reason\<close>. A controller has exactly one signal, the value
  \<^term>\<open>SignalV a\<close> for the controller at address \<open>a\<close>.
\<close>

record AbortController =
  aborted :: bool
  reason :: val

text \<open>
  A completion callback \<^verbatim>\<open>(value, isCurrent) => ...\<close> is given by the outcome of
  \<^verbatim>\<open>await callback(value, isCurrent)\<close>: \<^term>\<open>Rejected e\<close> when the callback throws
  \<open>e\<close> (or returns a promise that rejects with \<open>e\<close>).
\<close>

type_synonym callback = "val \<Rightarrow> bool \<Rightarrow> outcome"

text \<open>
  Where one invocation of the asynchronous function \<^verbatim>\<open>next\<close> stands: its getter
  is running (line 154), it is suspended at \<^verbatim>\<open>await promise\<close> (line 167) on a pending
  promise, its continuation is in the microtask queue, or it has finished.
\<close>

datatype phase = Running | Suspended nat | Queued | Done

text \<open>
  The closure of one invocation of \<^verbatim>\<open>next\<close>: the local \<^verbatim>\<open>thisRef\<close>, the two
  callbacks, whether a context object was made for it (\<^verbatim>\<open>nextContext(thisRef)\<close>,
  only when the first argument is a function), and the settlement of the
  promise that \<^verbatim>\<open>next\<close> returned. The address of an invocation in the list
  \<open>calls\<close> is also the address of its \<^verbatim>\<open>thisRef\<close>.
\<close>

record invocation =
  thisRef :: PromiseRef
  hasContext :: bool
  onFulfilled :: "callback option"
  onRejected :: "callback option"
  phase :: phase
  returned :: "outcome option"

text \<open>
  A microtask is either one of the two closures given to \<^verbatim>\<open>queueMicrotask\<close>
  (lines 162 and 171) or the continuation of an invocation after its
  \<^verbatim>\<open>await\<close> with the outcome of the awaited promise.
\<close>

datatype task = Notify bool | Continue nat outcome

text \<open>A native promise is pending, with the invocations waiting for it, or settled.\<close>

datatype pstate = Pending "nat list" | Settled outcome

text \<open>One call of a completion callback: the invocation, the two arguments.\<close>

datatype cbcall = OnFulfilledCall nat val bool | OnRejectedCall nat val bool

text \<open>
  The state of one tracker made by \<^verbatim>\<open>onePromise\<close>: the variable \<^verbatim>\<open>current\<close>
  (line 144), the heap of invocations and of controllers, the getters that are
  running (innermost first), the host's promises and microtask queue, and what
  the user's code has seen so far: the calls of \<^verbatim>\<open>onChangeIsPending\<close>, the calls of
  the completion callbacks, and the errors no one caught.
\<close>

record state =
  current :: "nat option"
  calls :: "invocation list"
  controllers :: "AbortController list"
  stack :: "nat list"
  promises :: "nat \<Rightarrow> pstate"
  microtasks :: "task list"
  isPendingLog :: "bool list"
  callbackLog :: "cbcall list"
  uncaught :: "val list"

definition init :: state where
  "init = \<lparr> current = None, calls = [], controllers = [], stack = [],
            promises = (\<lambda>_. Pending []), microtasks = [], isPendingLog = [],
            callbackLog = [], uncaught = [] \<rparr>"

section \<open>The host's primitives\<close>

text \<open>\<^verbatim>\<open>controller.abort(reason)\<close>: the first call wins, later calls do nothing.\<close>

definition abort :: "val \<Rightarrow> AbortController \<Rightarrow> AbortController" where
  "abort r c = (if aborted c then c else c\<lparr> aborted := True, reason := r \<rparr>)"

definition abort_controller :: "nat \<Rightarrow> state \<Rightarrow> state" where
  "abort_controller a s =
     s\<lparr> controllers := (controllers s)[a := abort OnePromiseAbortError (controllers s ! a)] \<rparr>"

definition queueMicrotask :: "task \<Rightarrow> state \<Rightarrow> state" where
  "queueMicrotask t s = s\<lparr> microtasks := microtasks s @ [t] \<rparr>"

definition set_thisRef :: "nat \<Rightarrow> (PromiseRef \<Rightarrow> PromiseRef) \<Rightarrow> state \<Rightarrow> state" where
  "set_thisRef c f s =
     s\<lparr> calls := (calls s)[c := (calls s ! c)\<lparr> thisRef := f (thisRef (calls s ! c)) \<rparr>] \<rparr>"

definition set_phase :: "nat \<Rightarrow> phase \<Rightarrow> state \<Rightarrow> state" where
  "set_phase c ph s = s\<lparr> calls := (calls s)[c := (calls s ! c)\<lparr> phase := ph \<rparr>] \<rparr>"

text \<open>
  \<^verbatim>\<open>await v\<close> in invocation \<open>c\<close>: on a pending promise the invocation is added to the
  promise's reactions; on a settled promise, and on a value that is no promise,
  the continuation is queued at once.
\<close>

definition await :: "nat \<Rightarrow> val \<Rightarrow> state \<Rightarrow> state" where
  "await c v s =
     (case v of
        PromiseV p \<Rightarrow>
          (case promises s p of
             Pending ws \<Rightarrow>
               set_phase c (Suspended p) (s\<lparr> promises := (promises s)(p := Pending (ws @ [c])) \<rparr>)
           | Settled out \<Rightarrow> queueMicrotask (Continue c out) (set_phase c Queued s))
      | _ \<Rightarrow> queueMicrotask (Continue c (Fulfilled v)) (set_phase c Queued s))"

text \<open>
  A promise settles: its reactions are queued in the order they were added.
  Settling a promise a second time does nothing.
\<close>

definition settle :: "nat \<Rightarrow> outcome \<Rightarrow> state \<Rightarrow> state" where
  "settle p out s =
     (case promises s p of
        Pending ws \<Rightarrow>
          fold (\<lambda>c. set_phase c Queued)  ws
            (s\<lparr> promises := (promises s)(p := Settled out),
                microtasks := microtasks s @ map (\<lambda>c. Continue c out) ws \<rparr>)
      | Settled _ \<Rightarrow> s)"

section \<open>The program\<close>

text \<open>
  The getter \<^verbatim>\<open>signal\<close> of the object made by \<^verbatim>\<open>nextContext(ref)\<close>
  (lines 196 to 208), for the record at address \<open>r\<close>. It returns the address of
  the controller whose signal it hands out.
\<close>

definition signal :: "nat \<Rightarrow> state \<Rightarrow> nat \<times> state" where
  "signal r s =
     (case abortController (thisRef (calls s ! r)) of
        None \<Rightarrow>
          (let a = length (controllers s);
               s1 = s\<lparr> controllers := controllers s @ [\<lparr> aborted = False, reason = Undefined \<rparr>] \<rparr>;
               s2 = set_thisRef r (\<lambda>ref. ref\<lparr> abortController := Some a \<rparr>) s1;
               s3 = (if \<not> isCurrent (thisRef (calls s2 ! r)) then abort_controller a s2 else s2)
           in (a, s3))
      | Some a \<Rightarrow> (a, s))"

text \<open>
  Lines 156 to 163 of \<^verbatim>\<open>next\<close>, for the invocation \<open>c\<close>: the slot is reassigned;
  the previous record, if there is one, is marked and its controller, if there
  is one, aborted; with no previous record the notification is queued.
\<close>

definition next_supersede :: "nat \<Rightarrow> state \<Rightarrow> state" where
  "next_supersede c s =
     (let prev = current s;
          s1 = s\<lparr> current := Some c \<rparr>
      in case prev of
           Some p \<Rightarrow>
             (let s2 = set_thisRef p (\<lambda>ref. ref\<lparr> isCurrent := False \<rparr>) s1
              in case abortController (thisRef (calls s2 ! p)) of
                   None \<Rightarrow> s2
                 | Some a \<Rightarrow> abort_controller a s2)
         | None \<Rightarrow> queueMicrotask (Notify True) s1)"

text \<open>Lines 156 to 167: the bookkeeping, then the function suspends at \<^verbatim>\<open>await promise\<close>.\<close>

definition next_track :: "nat \<Rightarrow> val \<Rightarrow> state \<Rightarrow> state" where
  "next_track c promise s = await c promise (next_supersede c s)"

text \<open>
  Lines 151 to 155: the record is made; a function is called with the context
  (its body is the user's code, which runs until a later \<open>Return\<close> or \<open>Throw\<close>);
  any other value is the promise itself.
\<close>

definition next_enter :: "val \<Rightarrow> callback option \<Rightarrow> callback option \<Rightarrow> state \<Rightarrow> state" where
  "next_enter valueArg onF onR s =
     (let c = length (calls s);
          isFn = (typeof valueArg = ''function'');
          s1 = s\<lparr> calls := calls s @
                 [\<lparr> thisRef = \<lparr> isCurrent = True, abortController = None \<rparr>,
                    hasContext = isFn, onFulfilled = onF, onRejected = onR,
                    phase = Running, returned = None \<rparr>] \<rparr>
      in if isFn then s1\<lparr> stack := c # stack s1 \<rparr> else next_track c valueArg s1)"

text \<open>The invocation ends: the promise it returned settles with \<open>out\<close>.\<close>

definition finish :: "nat \<Rightarrow> outcome \<Rightarrow> state \<Rightarrow> state" where
  "finish c out s =
     s\<lparr> calls := (calls s)[c := (calls s ! c)\<lparr> phase := Done, returned := Some out \<rparr>] \<rparr>"

text \<open>
  The getter throws (line 154): \<^verbatim>\<open>next\<close> is an \<^verbatim>\<open>async\<close> function, so the exception
  leaves its body at that line and rejects the promise it returned.
\<close>

definition next_throw :: "nat \<Rightarrow> val \<Rightarrow> state \<Rightarrow> state" where
  "next_throw c e s = finish c (Rejected e) s"

text \<open>The \<^verbatim>\<open>finally\<close> block, lines 168 to 173.\<close>

definition next_finally :: "nat \<Rightarrow> state \<Rightarrow> state" where
  "next_finally c s =
     (if isCurrent (thisRef (calls s ! c))
      then queueMicrotask (Notify False) (s\<lparr> current := None \<rparr>)
      else s)"

text \<open>The \<^verbatim>\<open>catch\<close> clause and the rest of the body, lines 174 to 183.\<close>

definition next_complete :: "nat \<Rightarrow> outcome \<Rightarrow> state \<Rightarrow> state" where
  "next_complete c out s =
     (let cur = isCurrent (thisRef (calls s ! c)) in
      case out of
        Rejected err \<Rightarrow>
          (case onRejected (calls s ! c) of
             None \<Rightarrow> finish c (Rejected err) s
           | Some g \<Rightarrow>
               finish c (g err cur) (s\<lparr> callbackLog := callbackLog s @ [OnRejectedCall c err cur] \<rparr>))
      | Fulfilled v \<Rightarrow>
          (case onFulfilled (calls s ! c) of
             None \<Rightarrow> finish c (Fulfilled v) s
           | Some f \<Rightarrow>
               finish c (f v cur) (s\<lparr> callbackLog := callbackLog s @ [OnFulfilledCall c v cur] \<rparr>)))"

text \<open>The continuation of \<^verbatim>\<open>await promise\<close>: lines 168 to 183.\<close>

definition next_resume :: "nat \<Rightarrow> outcome \<Rightarrow> state \<Rightarrow> state" where
  "next_resume c out s = next_complete c out (next_finally c s)"

section \<open>Executions\<close>

text \<open>
  The option \<^verbatim>\<open>onChangeIsPending\<close> of \<^verbatim>\<open>onePromise\<close>: absent, or a function of the
  flag that returns normally (\<open>None\<close>) or throws a value.
\<close>

type_synonym options = "(bool \<Rightarrow> val option) option"

text \<open>
  Running one microtask. \<^verbatim>\<open>() => onChangeIsPending?.(b)\<close> calls the option when
  there is one; what it throws reaches no handler and is reported by the host.
\<close>

fun run_task :: "options \<Rightarrow> task \<Rightarrow> state \<Rightarrow> state" where
  "run_task onChangeIsPending (Notify b) s =
     (case onChangeIsPending of
        None \<Rightarrow> s
      | Some f \<Rightarrow>
          (let s1 = s\<lparr> isPendingLog := isPendingLog s @ [b] \<rparr>
           in case f b of None \<Rightarrow> s1 | Some e \<Rightarrow> s1\<lparr> uncaught := uncaught s1 @ [e] \<rparr>))"
| "run_task onChangeIsPending (Continue c out) s = next_resume c out s"

text \<open>
  What can happen, one synchronous step at a time. The user's code calls
  \<^verbatim>\<open>next\<close>; the innermost running getter returns or throws; the user's code
  reads \<^verbatim>\<open>signal\<close> on the context of a record; a promise settles; the host runs
  the oldest microtask, which it does only when no getter is running.
  The user's code may do these in any order and at any time, also from inside a
  getter or a callback: a callback's own calls are the events after the \<open>Tick\<close>
  that ran it.
\<close>

datatype event =
    Call val "callback option" "callback option"
  | Return val
  | Throw val
  | GetSignal nat
  | Settle nat outcome
  | Tick

fun step :: "options \<Rightarrow> event \<Rightarrow> state \<Rightarrow> state" where
  "step oc (Call v onF onR) s = next_enter v onF onR s"
| "step oc (Return v) s =
     (case stack s of [] \<Rightarrow> s | c # cs \<Rightarrow> next_track c v (s\<lparr> stack := cs \<rparr>))"
| "step oc (Throw e) s =
     (case stack s of [] \<Rightarrow> s | c # cs \<Rightarrow> next_throw c e (s\<lparr> stack := cs \<rparr>))"
| "step oc (GetSignal r) s =
     (if r < length (calls s) \<and> hasContext (calls s ! r) then snd (signal r s) else s)"
| "step oc (Settle p out) s = settle p out s"
| "step oc Tick s =
     (case stack s of
        [] \<Rightarrow> (case microtasks s of [] \<Rightarrow> s | t # ts \<Rightarrow> run_task oc t (s\<lparr> microtasks := ts \<rparr>))
      | _ \<Rightarrow> s)"

fun exec :: "options \<Rightarrow> event list \<Rightarrow> state \<Rightarrow> state" where
  "exec oc [] s = s"
| "exec oc (e # es) s = exec oc es (step oc e s)"

definition reachable :: "options \<Rightarrow> state \<Rightarrow> bool" where
  "reachable oc s \<longleftrightarrow> (\<exists>es. s = exec oc es init)"

section \<open>Invariants of the reachable states\<close>

text \<open>An invocation is awaiting when it has passed line 167 and has not resumed.\<close>

definition awaiting :: "phase \<Rightarrow> bool" where
  "awaiting ph = (case ph of Suspended _ \<Rightarrow> True | Queued \<Rightarrow> True | _ \<Rightarrow> False)"

text \<open>The continuations, and the notifications, that a queue holds, oldest first.\<close>

fun conts :: "task list \<Rightarrow> nat list" where
  "conts [] = []"
| "conts (Notify _ # ts) = conts ts"
| "conts (Continue c _ # ts) = c # conts ts"

fun notifs :: "task list \<Rightarrow> bool list" where
  "notifs [] = []"
| "notifs (Notify b # ts) = b # notifs ts"
| "notifs (Continue _ _ # ts) = notifs ts"

text \<open>
  The slot and the flags: the slot holds an awaiting record whose flag is set,
  and an awaiting record whose flag is set is the one in the slot.
\<close>

definition slot_inv :: "state \<Rightarrow> bool" where
  "slot_inv s \<longleftrightarrow>
     (\<forall>c. current s = Some c \<longrightarrow>
        c < length (calls s) \<and> awaiting (phase (calls s ! c)) \<and> isCurrent (thisRef (calls s ! c))) \<and>
     (\<forall>c < length (calls s).
        awaiting (phase (calls s ! c)) \<and> isCurrent (thisRef (calls s ! c)) \<longrightarrow> current s = Some c)"

text \<open>
  Control: an invocation is found where its phase says, and once only. A running
  invocation has not been superseded, since it has never been in the slot.
\<close>

definition control_inv :: "state \<Rightarrow> bool" where
  "control_inv s \<longleftrightarrow>
     distinct (stack s) \<and>
     (\<forall>c \<in> set (stack s). c < length (calls s) \<and> phase (calls s ! c) = Running) \<and>
     (\<forall>c < length (calls s). phase (calls s ! c) = Running \<longrightarrow> isCurrent (thisRef (calls s ! c))) \<and>
     distinct (conts (microtasks s)) \<and>
     (\<forall>c \<in> set (conts (microtasks s)). c < length (calls s) \<and> phase (calls s ! c) = Queued) \<and>
     (\<forall>p ws. promises s p = Pending ws \<longrightarrow>
        distinct ws \<and> (\<forall>c \<in> set ws. c < length (calls s) \<and> phase (calls s ! c) = Suspended p))"

text \<open>
  A controller that exists for a superseded record has been aborted, and the
  only reason a controller is ever aborted with is the error of this program.
\<close>

definition abort_inv :: "state \<Rightarrow> bool" where
  "abort_inv s \<longleftrightarrow>
     (\<forall>a < length (controllers s).
        aborted (controllers s ! a) \<longrightarrow> reason (controllers s ! a) = OnePromiseAbortError) \<and>
     (\<forall>c < length (calls s). \<forall>a. abortController (thisRef (calls s ! c)) = Some a \<longrightarrow>
        a < length (controllers s) \<and>
        (\<not> isCurrent (thisRef (calls s ! c)) \<longrightarrow> aborted (controllers s ! a)))"

definition state_inv :: "state \<Rightarrow> bool" where
  "state_inv s \<longleftrightarrow> slot_inv s \<and> control_inv s \<and> abort_inv s"

section \<open>Notions used by the properties\<close>

text \<open>
  The notifications announced so far: those that \<^verbatim>\<open>onChangeIsPending\<close> has
  received, followed by those still in the queue.
\<close>

definition announced :: "state \<Rightarrow> bool list" where
  "announced s = isPendingLog s @ notifs (microtasks s)"

text \<open>
  What one change of the slot is to announce: \<open>true\<close> when it goes from empty
  to occupied, \<open>false\<close> when it goes from occupied to empty, nothing otherwise.
\<close>

fun edge :: "nat option \<Rightarrow> nat option \<Rightarrow> bool list" where
  "edge None (Some _) = [True]"
| "edge (Some _) None = [False]"
| "edge _ _ = []"

text \<open>An event that belongs to no call of \<^verbatim>\<open>next\<close>.\<close>

fun quiet :: "event \<Rightarrow> bool" where
  "quiet (GetSignal _) = True"
| "quiet (Settle _ _) = True"
| "quiet Tick = True"
| "quiet _ = False"

text \<open>
  The invocation that an event takes to line 156, if any: a call with a value
  that is no function, or the return of the innermost running getter.
\<close>

fun tracked :: "event \<Rightarrow> state \<Rightarrow> nat option" where
  "tracked (Call v _ _) s = (if typeof v = ''function'' then None else Some (length (calls s)))"
| "tracked (Return _) s = (case stack s of [] \<Rightarrow> None | c # _ \<Rightarrow> Some c)"
| "tracked _ s = None"



section \<open>Example executions\<close>

text \<open>
  A getter starts an operation on a pending promise without reading the
  signal; a second call of \<^verbatim>\<open>next\<close> then supersedes it.
\<close>

definition superseded_example :: state where
  "superseded_example =
     exec None [Call (FunctionV 0) None None, Return (PromiseV 0), Call Null None None] init"

text \<open>A call of \<^verbatim>\<open>next\<close> with a function: its getter is running.\<close>

definition getter_example :: state where
  "getter_example = exec None [Call (FunctionV 0) None None] init"


text \<open>
  A call whose \<^verbatim>\<open>onFulfilled\<close> throws, with an \<^verbatim>\<open>onRejected\<close> beside it; the queued
  notification has run, the continuation is next.
\<close>

definition failing_callback_example :: state where
  "failing_callback_example =
     exec None [Call Null (Some (\<lambda>v b. Rejected (Str ''things''))) (Some (\<lambda>r b. Fulfilled r)), Tick] init"

text \<open>
  A getter that throws at once; and a getter that throws while an earlier
  operation, whose signal has been read, is in flight.
\<close>

definition throw_example :: state where
  "throw_example = exec None [Call (FunctionV 0) None None, Throw (Str ''reason'')] init"

definition throw_overlap_example :: state where
  "throw_overlap_example =
     exec None [Call (FunctionV 0) None None, GetSignal 0, Return (PromiseV 0),
                Call (FunctionV 1) None None, Throw (Str ''reason'')] init"

text \<open>
  A getter keeps its context; its operation completes while current; a second
  call follows; then the kept context's signal is read. And a call whose getter
  is running while an earlier operation is in flight.
\<close>

definition completed_example :: state where
  "completed_example =
     exec None [Call (FunctionV 0) None None, Return Null, Tick, Tick,
                Call Null None None, GetSignal 0] init"

definition getter_overlap_example :: state where
  "getter_overlap_example =
     exec None [Call (PromiseV 0) None None, Call (FunctionV 0) None None] init"

text \<open>
  An \<^verbatim>\<open>onChangeIsPending\<close> that always throws, one that never does, and the events
  of one call with a plain value and an \<^verbatim>\<open>onRejected\<close> callback, run to the end.
\<close>

definition throwing_notifier :: "bool \<Rightarrow> val option" where
  "throwing_notifier b = Some (Str ''reason'')"

definition silent_notifier :: "bool \<Rightarrow> val option" where
  "silent_notifier b = None"

definition value_call_events :: "event list" where
  "value_call_events = [Call (Str ''value'') None (Some (\<lambda>r b. Fulfilled r)), Tick, Tick, Tick]"



section \<open>Basic facts\<close>

lemmas prims = queueMicrotask_def set_thisRef_def set_phase_def abort_controller_def finish_def

lemmas eval = init_def next_enter_def next_track_def next_supersede_def await_def settle_def
  signal_def next_throw_def next_finally_def next_complete_def next_resume_def
  queueMicrotask_def set_thisRef_def set_phase_def abort_controller_def finish_def abort_def Let_def

lemma conts_append [simp]: "conts (ts @ us) = conts ts @ conts us"
  by (induction ts rule: conts.induct) auto

lemma notifs_append [simp]: "notifs (ts @ us) = notifs ts @ notifs us"
  by (induction ts rule: notifs.induct) auto

lemma conts_map_Continue [simp]: "conts (map (\<lambda>c. Continue c out) ws) = ws"
  by (induction ws) auto

lemma notifs_map_Continue [simp]: "notifs (map (\<lambda>c. Continue c out) ws) = []"
  by (induction ws) auto

lemma awaiting_simps [simp]:
  "awaiting Running = False" "awaiting Done = False" "awaiting Queued = True" "awaiting (Suspended p) = True"
  by (simp_all add: awaiting_def)

lemma upd_other:
  assumes "\<And>x. f (g x) = f x"
  shows "f (xs[c := g (xs ! c)] ! i) = f (xs ! i)"
proof (cases "c < length xs")
  case True
  then show ?thesis using assms by (simp add: nth_list_update)
next
  case False
  then show ?thesis by (simp add: list_update_beyond)
qed

lemma upd_phase_other [simp]:
  "thisRef (xs[c := (xs ! c)\<lparr>phase := ph\<rparr>] ! i) = thisRef (xs ! i)"
  "hasContext (xs[c := (xs ! c)\<lparr>phase := ph\<rparr>] ! i) = hasContext (xs ! i)"
  "onFulfilled (xs[c := (xs ! c)\<lparr>phase := ph\<rparr>] ! i) = onFulfilled (xs ! i)"
  "onRejected (xs[c := (xs ! c)\<lparr>phase := ph\<rparr>] ! i) = onRejected (xs ! i)"
  "returned (xs[c := (xs ! c)\<lparr>phase := ph\<rparr>] ! i) = returned (xs ! i)"
  by (rule upd_other[where g = "phase_update (\<lambda>_. ph)"], simp)+

lemma upd_finish_other [simp]:
  "thisRef (xs[c := (xs ! c)\<lparr>phase := ph, returned := r\<rparr>] ! i) = thisRef (xs ! i)"
  "hasContext (xs[c := (xs ! c)\<lparr>phase := ph, returned := r\<rparr>] ! i) = hasContext (xs ! i)"
  "onFulfilled (xs[c := (xs ! c)\<lparr>phase := ph, returned := r\<rparr>] ! i) = onFulfilled (xs ! i)"
  "onRejected (xs[c := (xs ! c)\<lparr>phase := ph, returned := r\<rparr>] ! i) = onRejected (xs ! i)"
  by (rule upd_other[where g = "\<lambda>x. x\<lparr>phase := ph, returned := r\<rparr>"], simp)+

lemma upd_thisRef_other [simp]:
  "phase (xs[c := (xs ! c)\<lparr>thisRef := r\<rparr>] ! i) = phase (xs ! i)"
  "hasContext (xs[c := (xs ! c)\<lparr>thisRef := r\<rparr>] ! i) = hasContext (xs ! i)"
  "onFulfilled (xs[c := (xs ! c)\<lparr>thisRef := r\<rparr>] ! i) = onFulfilled (xs ! i)"
  "onRejected (xs[c := (xs ! c)\<lparr>thisRef := r\<rparr>] ! i) = onRejected (xs ! i)"
  "returned (xs[c := (xs ! c)\<lparr>thisRef := r\<rparr>] ! i) = returned (xs ! i)"
  by (rule upd_other[where g = "thisRef_update (\<lambda>_. r)"], simp)+

lemma upd_isCurrent_other [simp]:
  "abortController (thisRef (xs[c := (xs ! c)\<lparr>thisRef := (thisRef (xs ! c))\<lparr>isCurrent := b\<rparr>\<rparr>] ! i))
     = abortController (thisRef (xs ! i))"
  by (rule upd_other[where f = "\<lambda>x. abortController (thisRef x)"
        and g = "\<lambda>x. x\<lparr>thisRef := (thisRef x)\<lparr>isCurrent := b\<rparr>\<rparr>"], simp)

lemma upd_abortController_other [simp]:
  "isCurrent (thisRef (xs[c := (xs ! c)\<lparr>thisRef := (thisRef (xs ! c))\<lparr>abortController := b\<rparr>\<rparr>] ! i))
     = isCurrent (thisRef (xs ! i))"
  by (rule upd_other[where f = "\<lambda>x. isCurrent (thisRef x)"
        and g = "\<lambda>x. x\<lparr>thisRef := (thisRef x)\<lparr>abortController := b\<rparr>\<rparr>"], simp)

lemma state_inv_init: "state_inv init"
  by (simp add: state_inv_def slot_inv_def control_inv_def abort_inv_def init_def)

lemma slot_invD1:
  "slot_inv s \<Longrightarrow> current s = Some c \<Longrightarrow>
   c < length (calls s) \<and> awaiting (phase (calls s ! c)) \<and> isCurrent (thisRef (calls s ! c))"
  unfolding slot_inv_def by blast

lemma slot_invD2:
  "slot_inv s \<Longrightarrow> c < length (calls s) \<Longrightarrow> awaiting (phase (calls s ! c)) \<Longrightarrow>
   isCurrent (thisRef (calls s ! c)) \<Longrightarrow> current s = Some c"
  unfolding slot_inv_def by blast

lemma slot_invI:
  assumes "\<And>c. current s = Some c \<Longrightarrow>
      c < length (calls s) \<and> awaiting (phase (calls s ! c)) \<and> isCurrent (thisRef (calls s ! c))"
    and "\<And>c. c < length (calls s) \<Longrightarrow> awaiting (phase (calls s ! c)) \<Longrightarrow>
      isCurrent (thisRef (calls s ! c)) \<Longrightarrow> current s = Some c"
  shows "slot_inv s"
  unfolding slot_inv_def using assms by blast

lemma control_invD:
  assumes "control_inv s"
  shows "distinct (stack s)"
    and "\<And>c. c \<in> set (stack s) \<Longrightarrow> c < length (calls s) \<and> phase (calls s ! c) = Running"
    and "\<And>c. c < length (calls s) \<Longrightarrow> phase (calls s ! c) = Running \<Longrightarrow>
           isCurrent (thisRef (calls s ! c))"
    and "distinct (conts (microtasks s))"
    and "\<And>c. c \<in> set (conts (microtasks s)) \<Longrightarrow>
           c < length (calls s) \<and> phase (calls s ! c) = Queued"
    and "\<And>p ws. promises s p = Pending ws \<Longrightarrow> distinct ws"
    and "\<And>p ws c. promises s p = Pending ws \<Longrightarrow> c \<in> set ws \<Longrightarrow>
           c < length (calls s) \<and> phase (calls s ! c) = Suspended p"
  using assms unfolding control_inv_def by blast+

lemma control_invI:
  assumes "distinct (stack s)"
    and "\<And>c. c \<in> set (stack s) \<Longrightarrow> c < length (calls s) \<and> phase (calls s ! c) = Running"
    and "\<And>c. c < length (calls s) \<Longrightarrow> phase (calls s ! c) = Running \<Longrightarrow>
           isCurrent (thisRef (calls s ! c))"
    and "distinct (conts (microtasks s))"
    and "\<And>c. c \<in> set (conts (microtasks s)) \<Longrightarrow>
           c < length (calls s) \<and> phase (calls s ! c) = Queued"
    and "\<And>p ws. promises s p = Pending ws \<Longrightarrow> distinct ws"
    and "\<And>p ws c. promises s p = Pending ws \<Longrightarrow> c \<in> set ws \<Longrightarrow>
           c < length (calls s) \<and> phase (calls s ! c) = Suspended p"
  shows "control_inv s"
  unfolding control_inv_def using assms by blast

lemma abort_invD:
  assumes "abort_inv s"
  shows "\<And>a. a < length (controllers s) \<Longrightarrow> aborted (controllers s ! a) \<Longrightarrow>
           reason (controllers s ! a) = OnePromiseAbortError"
    and "\<And>c a. c < length (calls s) \<Longrightarrow> abortController (thisRef (calls s ! c)) = Some a \<Longrightarrow>
           a < length (controllers s)"
    and "\<And>c a. c < length (calls s) \<Longrightarrow> abortController (thisRef (calls s ! c)) = Some a \<Longrightarrow>
           \<not> isCurrent (thisRef (calls s ! c)) \<Longrightarrow> aborted (controllers s ! a)"
  using assms unfolding abort_inv_def by blast+

lemma abort_invI:
  assumes "\<And>a. a < length (controllers s) \<Longrightarrow> aborted (controllers s ! a) \<Longrightarrow>
           reason (controllers s ! a) = OnePromiseAbortError"
    and "\<And>c a. c < length (calls s) \<Longrightarrow> abortController (thisRef (calls s ! c)) = Some a \<Longrightarrow>
           a < length (controllers s)"
    and "\<And>c a. c < length (calls s) \<Longrightarrow> abortController (thisRef (calls s ! c)) = Some a \<Longrightarrow>
           \<not> isCurrent (thisRef (calls s ! c)) \<Longrightarrow> aborted (controllers s ! a)"
  shows "abort_inv s"
  unfolding abort_inv_def using assms by blast

lemma slot_inv_cong:
  assumes "current t = current s" "length (calls t) = length (calls s)"
    "\<And>i. i < length (calls s) \<Longrightarrow>
       awaiting (phase (calls t ! i)) = awaiting (phase (calls s ! i))"
    "\<And>i. i < length (calls s) \<Longrightarrow>
       isCurrent (thisRef (calls t ! i)) = isCurrent (thisRef (calls s ! i))"
  shows "slot_inv t = slot_inv s"
proof -
  have "slot_inv b" if "slot_inv a" and e: "current b = current a" "length (calls b) = length (calls a)"
    "\<And>i. i < length (calls a) \<Longrightarrow> awaiting (phase (calls b ! i)) = awaiting (phase (calls a ! i))"
    "\<And>i. i < length (calls a) \<Longrightarrow>
       isCurrent (thisRef (calls b ! i)) = isCurrent (thisRef (calls a ! i))" for a b
  proof (rule slot_invI)
    fix c assume "current b = Some c"
    then have "current a = Some c" using e(1) by simp
    from slot_invD1[OF that(1) this] e(2) e(3)[of c] e(4)[of c]
    show "c < length (calls b) \<and> awaiting (phase (calls b ! c)) \<and> isCurrent (thisRef (calls b ! c))"
      by simp
  next
    fix c assume "c < length (calls b)" "awaiting (phase (calls b ! c))"
      "isCurrent (thisRef (calls b ! c))"
    then show "current b = Some c"
      using slot_invD2[OF that(1), of c] e(1) e(2) e(3)[of c] e(4)[of c] by simp
  qed
  from this[of s t] this[of t s] assms show ?thesis by auto
qed

lemma abort_inv_cong:
  "controllers t = controllers s \<Longrightarrow> length (calls t) = length (calls s) \<Longrightarrow>
   (\<And>i. thisRef (calls t ! i) = thisRef (calls s ! i)) \<Longrightarrow> abort_inv t = abort_inv s"
  by (simp add: abort_inv_def)

lemma control_inv_cong:
  "stack t = stack s \<Longrightarrow> calls t = calls s \<Longrightarrow> conts (microtasks t) = conts (microtasks s) \<Longrightarrow>
   promises t = promises s \<Longrightarrow> control_inv t = control_inv s"
  by (simp add: control_inv_def)

subsection \<open>await\<close>

lemma await_cases:
  obtains (suspend) p ws where "v = PromiseV p" "promises s p = Pending ws"
      "await c v s = set_phase c (Suspended p) (s\<lparr> promises := (promises s)(p := Pending (ws @ [c])) \<rparr>)"
  | (queue) out where "await c v s = queueMicrotask (Continue c out) (set_phase c Queued s)"
  by (cases v; cases "promises s (case v of PromiseV p \<Rightarrow> p | _ \<Rightarrow> 0)") (auto simp: await_def)

lemma await_fields [simp]:
  "current (await c v s) = current s"
  "controllers (await c v s) = controllers s"
  "stack (await c v s) = stack s"
  "isPendingLog (await c v s) = isPendingLog s"
  "callbackLog (await c v s) = callbackLog s"
  "uncaught (await c v s) = uncaught s"
  "length (calls (await c v s)) = length (calls s)"
  "notifs (microtasks (await c v s)) = notifs (microtasks s)"
  by (rule await_cases[where v = v and s = s and c = c]; simp add: prims)+

lemma await_thisRef [simp]:
  "thisRef (calls (await c v s) ! i) = thisRef (calls s ! i)"
  by (rule await_cases[where v = v and s = s and c = c]; simp add: prims)

lemma await_phase:
  "c < length (calls s) \<Longrightarrow>
   awaiting (phase (calls (await c v s) ! c)) \<and>
   (\<forall>i. i \<noteq> c \<longrightarrow> phase (calls (await c v s) ! i) = phase (calls s ! i))"
  by (rule await_cases[where v = v and s = s and c = c]; simp add: prims nth_list_update)

lemma control_inv_await:
  assumes "control_inv s" "c < length (calls s)" "phase (calls s ! c) = Running"
    "c \<notin> set (stack s)"
  shows "control_inv (await c v s)"
proof (rule await_cases[where v = v and s = s and c = c])
  fix p ws
  assume "v = PromiseV p" "promises s p = Pending ws"
    "await c v s = set_phase c (Suspended p) (s\<lparr> promises := (promises s)(p := Pending (ws @ [c])) \<rparr>)"
  then show ?thesis using assms unfolding control_inv_def set_phase_def
    by (auto simp: nth_list_update)
next
  fix out
  assume "await c v s = queueMicrotask (Continue c out) (set_phase c Queued s)"
  then show ?thesis using assms unfolding control_inv_def set_phase_def queueMicrotask_def
    by (auto simp: nth_list_update)
qed

lemma abort_inv_await: "abort_inv s \<Longrightarrow> abort_inv (await c v s)"
  by (simp add: abort_inv_def)

subsection \<open>next-supersede\<close>

lemma next_supersede_fields [simp]:
  "current (next_supersede c s) = Some c"
  "stack (next_supersede c s) = stack s"
  "promises (next_supersede c s) = promises s"
  "isPendingLog (next_supersede c s) = isPendingLog s"
  "callbackLog (next_supersede c s) = callbackLog s"
  "uncaught (next_supersede c s) = uncaught s"
  "length (calls (next_supersede c s)) = length (calls s)"
  "length (controllers (next_supersede c s)) = length (controllers s)"
  "phase (calls (next_supersede c s) ! i) = phase (calls s ! i)"
  "conts (microtasks (next_supersede c s)) = conts (microtasks s)"
  by (cases "current s"; cases "i < length (calls s)"; cases "the (current s) < length (calls s)";
      simp add: next_supersede_def prims Let_def nth_list_update split: option.split)+

lemma next_supersede_isCurrent:
  "i < length (calls s) \<Longrightarrow>
   isCurrent (thisRef (calls (next_supersede c s) ! i)) =
     (isCurrent (thisRef (calls s ! i)) \<and> current s \<noteq> Some i)"
  by (cases "current s"; cases "the (current s) < length (calls s)";
      simp add: next_supersede_def prims Let_def nth_list_update split: option.split)

lemma next_supersede_abortController [simp]:
  "abortController (thisRef (calls (next_supersede c s) ! i)) = abortController (thisRef (calls s ! i))"
  by (cases "current s"; simp add: next_supersede_def prims Let_def split: option.split)


lemma control_inv_next_supersede:
  assumes "slot_inv s" "control_inv s"
  shows "control_inv (next_supersede c s)"
proof -
  note ci = control_invD[OF assms(2)]
  show ?thesis
  proof (rule control_invI)
    show "isCurrent (thisRef (calls (next_supersede c s) ! i))"
      if "i < length (calls (next_supersede c s))" "phase (calls (next_supersede c s) ! i) = Running"
      for i
    proof -
      from that have i: "i < length (calls s)" and r: "phase (calls s ! i) = Running" by simp_all
      have "current s \<noteq> Some i" using slot_invD1[OF assms(1), of i] r by auto
      then show ?thesis using ci(3)[OF i r] i by (simp add: next_supersede_isCurrent)
    qed
  qed (use ci in simp_all)
qed

lemma abort_inv_next_supersede:
  assumes "slot_inv s" "abort_inv s"
  shows "abort_inv (next_supersede c s)"
proof (cases "current s")
  case None
  then show ?thesis using assms(2)
    by (simp add: abort_inv_def next_supersede_def prims Let_def)
next
  case (Some p)
  with assms(1) have p: "p < length (calls s)" unfolding slot_inv_def by blast
  show ?thesis
  proof (cases "abortController (thisRef (calls s ! p))")
    case None
    then show ?thesis using Some assms(2) p
      by (auto simp: abort_inv_def next_supersede_def prims Let_def nth_list_update)
  next
    case (Some aa)
    with assms(2) p have aa: "aa < length (controllers s)" unfolding abort_inv_def by blast
    show ?thesis using \<open>current s = Some p\<close> Some assms(2) p aa
      by (auto simp: abort_inv_def next_supersede_def prims Let_def nth_list_update abort_def)
  qed
qed

lemma slot_inv_next_track:
  assumes "slot_inv s" "control_inv s" "c < length (calls s)" "phase (calls s ! c) = Running"
  shows "slot_inv (next_track c v s)"
proof -
  let ?m = "next_supersede c s"
  let ?t = "await c v ?m"
  have c: "c < length (calls ?m)" using assms(3) by simp
  from await_phase[OF c, of v]
  have ph1: "awaiting (phase (calls ?t ! c))"
    and ph2: "\<And>i. i \<noteq> c \<Longrightarrow> phase (calls ?t ! i) = phase (calls s ! i)"
    by simp_all
  have cur: "isCurrent (thisRef (calls s ! c))"
    using control_invD(3)[OF assms(2,3,4)] .
  have notc: "current s \<noteq> Some c" using slot_invD1[OF assms(1), of c] assms(4) by auto
  have "slot_inv ?t"
  proof (rule slot_invI)
    fix i assume "current ?t = Some i"
    then have "i = c" by simp
    then show "i < length (calls ?t) \<and> awaiting (phase (calls ?t ! i)) \<and>
      isCurrent (thisRef (calls ?t ! i))"
      using assms(3) ph1 cur notc by (simp add: next_supersede_isCurrent)
  next
    fix i assume i: "i < length (calls ?t)"
      and h: "awaiting (phase (calls ?t ! i))" "isCurrent (thisRef (calls ?t ! i))"
    show "current ?t = Some i"
    proof (cases "i = c")
      case True then show ?thesis by simp
    next
      case False
      from i have i': "i < length (calls s)" by simp
      from h(1) ph2[OF False] have 1: "awaiting (phase (calls s ! i))" by simp
      from h(2) i' have 2: "isCurrent (thisRef (calls s ! i))" and 3: "current s \<noteq> Some i"
        by (simp_all add: next_supersede_isCurrent)
      from slot_invD2[OF assms(1) i' 1 2] 3 show ?thesis by simp
    qed
  qed
  then show ?thesis by (simp add: next_track_def)
qed

lemma state_inv_next_track:
  assumes "state_inv s" "c < length (calls s)" "phase (calls s ! c) = Running" "c \<notin> set (stack s)"
  shows "state_inv (next_track c v s)"
proof -
  from assms(1) have s: "slot_inv s" "control_inv s" "abort_inv s" by (simp_all add: state_inv_def)
  have "control_inv (next_track c v s)"
    unfolding next_track_def
    by (rule control_inv_await) (use assms s in \<open>simp_all add: control_inv_next_supersede\<close>)
  moreover have "abort_inv (next_track c v s)"
    unfolding next_track_def using s by (simp add: abort_inv_await abort_inv_next_supersede)
  ultimately show ?thesis using slot_inv_next_track[OF s(1,2) assms(2,3)]
    by (simp add: state_inv_def)
qed

lemma state_inv_append:
  assumes "state_inv s" "phase k = Running" "isCurrent (thisRef k)"
    "abortController (thisRef k) = None"
  shows "state_inv (s\<lparr> calls := calls s @ [k] \<rparr>)"
proof -
  let ?s = "s\<lparr> calls := calls s @ [k] \<rparr>"
  from assms(1) have s: "slot_inv s" "control_inv s" "abort_inv s" by (simp_all add: state_inv_def)
  have old: "\<And>i. i < length (calls s) \<Longrightarrow> calls ?s ! i = calls s ! i"
    by (simp add: nth_append)
  have new: "\<And>i. i < length (calls ?s) \<Longrightarrow> \<not> i < length (calls s) \<Longrightarrow> calls ?s ! i = k"
    by (simp add: nth_append less_Suc_eq)
  have 1: "slot_inv ?s"
  proof (rule slot_invI)
    fix c assume "current ?s = Some c"
    then have "current s = Some c" by simp
    from slot_invD1[OF s(1) this] show
      "c < length (calls ?s) \<and> awaiting (phase (calls ?s ! c)) \<and> isCurrent (thisRef (calls ?s ! c))"
      using old[of c] by simp
  next
    fix c assume c: "c < length (calls ?s)" and a: "awaiting (phase (calls ?s ! c))"
      and i: "isCurrent (thisRef (calls ?s ! c))"
    have "c < length (calls s)" using new[OF c] a assms(2) by (cases "c < length (calls s)") auto
    with a i old[of c] slot_invD2[OF s(1), of c] show "current ?s = Some c" by simp
  qed
  note ci = control_invD[OF s(2)]
  have 2: "control_inv ?s"
  proof (rule control_invI)
    show "distinct (stack ?s)" using ci(1) by simp
    show "distinct (conts (microtasks ?s))" using ci(4) by simp
    show "\<And>c. c \<in> set (stack ?s) \<Longrightarrow> c < length (calls ?s) \<and> phase (calls ?s ! c) = Running"
      using ci(2) old by fastforce
    show "\<And>c. c \<in> set (conts (microtasks ?s)) \<Longrightarrow>
           c < length (calls ?s) \<and> phase (calls ?s ! c) = Queued"
      using ci(5) old by fastforce
    show "\<And>p ws. promises ?s p = Pending ws \<Longrightarrow> distinct ws" using ci(6) by simp
    show "\<And>p ws c. promises ?s p = Pending ws \<Longrightarrow> c \<in> set ws \<Longrightarrow>
           c < length (calls ?s) \<and> phase (calls ?s ! c) = Suspended p"
      using ci(7) old by fastforce
    show "isCurrent (thisRef (calls ?s ! c))"
      if "c < length (calls ?s)" "phase (calls ?s ! c) = Running" for c
      using that ci(3)[of c] old[of c] new[of c] assms(3) by (cases "c < length (calls s)") auto
  qed
  note ai = abort_invD[OF s(3)]
  have 3: "abort_inv ?s"
  proof (rule abort_invI)
    show "\<And>a. a < length (controllers ?s) \<Longrightarrow> aborted (controllers ?s ! a) \<Longrightarrow>
           reason (controllers ?s ! a) = OnePromiseAbortError"
      using ai(1) by simp
    show "a < length (controllers ?s)"
      if "c < length (calls ?s)" "abortController (thisRef (calls ?s ! c)) = Some a" for c a
      using that ai(2)[of c a] old[of c] new[of c] assms(4) by (cases "c < length (calls s)") auto
    show "aborted (controllers ?s ! a)"
      if "c < length (calls ?s)" "abortController (thisRef (calls ?s ! c)) = Some a"
         "\<not> isCurrent (thisRef (calls ?s ! c))" for c a
      using that ai(3)[of c a] old[of c] new[of c] assms(4) by (cases "c < length (calls s)") auto
  qed
  show ?thesis using 1 2 3 by (simp add: state_inv_def)
qed


lemma state_inv_stack:
  assumes "state_inv s" "set cs \<subseteq> set (stack s)" "distinct cs"
  shows "state_inv (s\<lparr> stack := cs \<rparr>)"
proof -
  from assms(1) have s: "slot_inv s" "control_inv s" "abort_inv s" by (simp_all add: state_inv_def)
  have "control_inv (s\<lparr> stack := cs \<rparr>)"
    using s(2) assms(2,3) by (simp add: control_inv_def subset_iff)
  moreover have "slot_inv (s\<lparr> stack := cs \<rparr>)"
    using s(1) slot_inv_cong[of "s\<lparr> stack := cs \<rparr>" s] by simp
  moreover have "abort_inv (s\<lparr> stack := cs \<rparr>)"
    using s(3) abort_inv_cong[of "s\<lparr> stack := cs \<rparr>" s] by simp
  ultimately show ?thesis by (simp add: state_inv_def)
qed

lemma state_inv_push:
  assumes "state_inv s" "c < length (calls s)" "phase (calls s ! c) = Running" "c \<notin> set (stack s)"
  shows "state_inv (s\<lparr> stack := c # stack s \<rparr>)"
proof -
  from assms(1) have s: "slot_inv s" "control_inv s" "abort_inv s" by (simp_all add: state_inv_def)
  have "control_inv (s\<lparr> stack := c # stack s \<rparr>)"
    using s(2) assms(2,3,4) by (simp add: control_inv_def)
  moreover have "slot_inv (s\<lparr> stack := c # stack s \<rparr>)"
    using s(1) slot_inv_cong[of "s\<lparr> stack := c # stack s \<rparr>" s] by simp
  moreover have "abort_inv (s\<lparr> stack := c # stack s \<rparr>)"
    using s(3) abort_inv_cong[of "s\<lparr> stack := c # stack s \<rparr>" s] by simp
  ultimately show ?thesis by (simp add: state_inv_def)
qed

lemma state_inv_next_enter:
  assumes "state_inv s"
  shows "state_inv (next_enter v onF onR s)"
proof -
  let ?k = "\<lparr> thisRef = \<lparr> isCurrent = True, abortController = None \<rparr>,
              hasContext = (typeof v = ''function''), onFulfilled = onF, onRejected = onR,
              phase = Running, returned = None \<rparr>"
  let ?s1 = "s\<lparr> calls := calls s @ [?k] \<rparr>"
  have inv1: "state_inv ?s1" by (rule state_inv_append[OF assms]) simp_all
  have "\<And>c. c \<in> set (stack s) \<Longrightarrow> c < length (calls s)"
    using control_invD(2)[of s] assms by (simp add: state_inv_def)
  then have notin: "length (calls s) \<notin> set (stack ?s1)" by auto
  have len: "length (calls s) < length (calls ?s1)" by simp
  have ph: "phase (calls ?s1 ! length (calls s)) = Running" by simp
  show ?thesis
  proof (cases "typeof v = ''function''")
    case True
    from state_inv_push[OF inv1 len ph notin] True show ?thesis
      by (simp add: next_enter_def Let_def)
  next
    case False
    from state_inv_next_track[OF inv1 len ph notin, of v] False show ?thesis
      by (simp add: next_enter_def Let_def)
  qed
qed

lemma finish_fields [simp]:
  "length (calls (finish c out s)) = length (calls s)"
  "thisRef (calls (finish c out s) ! i) = thisRef (calls s ! i)"
  "hasContext (calls (finish c out s) ! i) = hasContext (calls s ! i)"
  "onFulfilled (calls (finish c out s) ! i) = onFulfilled (calls s ! i)"
  "onRejected (calls (finish c out s) ! i) = onRejected (calls s ! i)"
  "current (finish c out s) = current s" "stack (finish c out s) = stack s"
  "microtasks (finish c out s) = microtasks s" "promises (finish c out s) = promises s"
  "controllers (finish c out s) = controllers s" "isPendingLog (finish c out s) = isPendingLog s"
  "callbackLog (finish c out s) = callbackLog s" "uncaught (finish c out s) = uncaught s"
  by (simp_all add: finish_def)

lemma finish_other: "i \<noteq> c \<Longrightarrow> calls (finish c out s) ! i = calls s ! i"
  by (simp add: finish_def)

lemma finish_self:
  "c < length (calls s) \<Longrightarrow> phase (calls (finish c out s) ! c) = Done"
  "c < length (calls s) \<Longrightarrow> returned (calls (finish c out s) ! c) = Some out"
  by (simp_all add: finish_def)

lemma control_inv_finish:
  assumes "control_inv s" "c < length (calls s)" "c \<notin> set (stack s)"
    "c \<notin> set (conts (microtasks s))" "\<And>p ws. promises s p = Pending ws \<Longrightarrow> c \<notin> set ws"
  shows "control_inv (finish c out s)"
proof -
  let ?t = "finish c out s"
  note oth = finish_other[of _ c out s]
  note self = finish_self(1)[OF assms(2), of out]
  note ci = control_invD[OF assms(1)]
  show ?thesis
  proof (rule control_invI)
    show "distinct (stack ?t)" "distinct (conts (microtasks ?t))" using ci(1,4) by simp_all
    show "\<And>p ws. promises ?t p = Pending ws \<Longrightarrow> distinct ws" using ci(6) by simp
    show "i < length (calls ?t) \<and> phase (calls ?t ! i) = Running" if "i \<in> set (stack ?t)" for i
    proof -
      from that assms(3) have "i \<noteq> c" by auto
      with ci(2)[of i] that oth[of i] show ?thesis by simp
    qed
    show "i < length (calls ?t) \<and> phase (calls ?t ! i) = Queued"
      if "i \<in> set (conts (microtasks ?t))" for i
    proof -
      from that assms(4) have "i \<noteq> c" by auto
      with ci(5)[of i] that oth[of i] show ?thesis by simp
    qed
    show "i < length (calls ?t) \<and> phase (calls ?t ! i) = Suspended p"
      if "promises ?t p = Pending ws" "i \<in> set ws" for p ws i
    proof -
      from that assms(5)[of p ws] have "i \<noteq> c" by auto
      with ci(7)[of p ws i] that oth[of i] show ?thesis by simp
    qed
    show "isCurrent (thisRef (calls ?t ! i))"
      if "i < length (calls ?t)" "phase (calls ?t ! i) = Running" for i
    proof -
      from that self have "i \<noteq> c" by auto
      with ci(3)[of i] that oth[of i] show ?thesis by simp
    qed
  qed
qed

lemma abort_inv_finish: "abort_inv s \<Longrightarrow> abort_inv (finish c out s)"
  using abort_inv_cong[of "finish c out s" s] by simp

lemma slot_inv_finish:
  assumes "slot_inv s" "c < length (calls s)" "current s \<noteq> Some c"
  shows "slot_inv (finish c out s)"
proof -
  let ?t = "finish c out s"
  note oth = finish_other[of _ c out s]
  note self = finish_self(1)[OF assms(2), of out]
  show ?thesis
  proof (rule slot_invI)
    fix i assume "current ?t = Some i"
    then have i: "current s = Some i" by simp
    with assms(3) have "i \<noteq> c" by auto
    with slot_invD1[OF assms(1) i] oth[of i] show
      "i < length (calls ?t) \<and> awaiting (phase (calls ?t ! i)) \<and> isCurrent (thisRef (calls ?t ! i))"
      by simp
  next
    fix i assume i: "i < length (calls ?t)" and a: "awaiting (phase (calls ?t ! i))"
      and cu: "isCurrent (thisRef (calls ?t ! i))"
    have "i \<noteq> c" using a self by auto
    with slot_invD2[OF assms(1), of i] i a cu oth[of i] show "current ?t = Some i" by simp
  qed
qed

lemma state_inv_next_throw:
  assumes "state_inv s" "c < length (calls s)" "phase (calls s ! c) = Running" "c \<notin> set (stack s)"
  shows "state_inv (next_throw c e s)"
proof -
  from assms(1) have s: "slot_inv s" "control_inv s" "abort_inv s" by (simp_all add: state_inv_def)
  note ci = control_invD[OF s(2)]
  have 1: "current s \<noteq> Some c" using slot_invD1[OF s(1), of c] assms(3) by auto
  have 2: "c \<notin> set (conts (microtasks s))" using ci(5)[of c] assms(3) by auto
  have 3: "\<And>p ws. promises s p = Pending ws \<Longrightarrow> c \<notin> set ws"
    using ci(7)[of _ _ c] assms(3) by auto
  show ?thesis unfolding next_throw_def state_inv_def
    using slot_inv_finish[OF s(1) assms(2) 1] control_inv_finish[OF s(2) assms(2,4) 2 3]
      abort_inv_finish[OF s(3)] by simp
qed

subsection \<open>The continuation\<close>

lemma next_finally_fields [simp]:
  "calls (next_finally c s) = calls s" "stack (next_finally c s) = stack s"
  "promises (next_finally c s) = promises s" "controllers (next_finally c s) = controllers s"
  "conts (microtasks (next_finally c s)) = conts (microtasks s)"
  "isPendingLog (next_finally c s) = isPendingLog s"
  "callbackLog (next_finally c s) = callbackLog s" "uncaught (next_finally c s) = uncaught s"
  "current (next_finally c s) = (if isCurrent (thisRef (calls s ! c)) then None else current s)"
  by (simp_all add: next_finally_def queueMicrotask_def)

lemma next_complete_shape:
  "\<exists>out' l. next_complete c out s = finish c out' (s\<lparr> callbackLog := l \<rparr>)"
proof (cases out)
  case (Fulfilled v)
  show ?thesis
  proof (cases "onFulfilled (calls s ! c)")
    case None
    with Fulfilled have "next_complete c out s = finish c (Fulfilled v) (s\<lparr> callbackLog := callbackLog s \<rparr>)"
      by (simp add: next_complete_def)
    then show ?thesis by blast
  next
    case (Some f)
    with Fulfilled show ?thesis by (simp add: next_complete_def Let_def) blast
  qed
next
  case (Rejected e)
  show ?thesis
  proof (cases "onRejected (calls s ! c)")
    case None
    with Rejected have "next_complete c out s = finish c (Rejected e) (s\<lparr> callbackLog := callbackLog s \<rparr>)"
      by (simp add: next_complete_def)
    then show ?thesis by blast
  next
    case (Some f)
    with Rejected show ?thesis by (simp add: next_complete_def Let_def) blast
  qed
qed

lemma state_inv_next_resume:
  assumes "state_inv s" "c < length (calls s)" "phase (calls s ! c) = Queued"
    "c \<notin> set (conts (microtasks s))"
  shows "state_inv (next_resume c out s)"
proof -
  from assms(1) have s: "slot_inv s" "control_inv s" "abort_inv s" by (simp_all add: state_inv_def)
  obtain out' l where eq: "next_resume c out s = finish c out' ((next_finally c s)\<lparr> callbackLog := l \<rparr>)"
    using next_complete_shape[of c out "next_finally c s"] unfolding next_resume_def by blast
  let ?m = "(next_finally c s)\<lparr> callbackLog := l \<rparr>"
  let ?t = "finish c out' ?m"
  note ci = control_invD[OF s(2)]
  have cm: "control_inv ?m" using s(2) control_inv_cong[of ?m s] by simp
  have am: "abort_inv ?m" using s(3) abort_inv_cong[of ?m s] by simp
  have 2: "control_inv ?t"
  proof (rule control_inv_finish[OF cm])
    show "c < length (calls ?m)" using assms(2) by simp
    show "c \<notin> set (stack ?m)" using ci(2)[of c] assms(3) by auto
    show "c \<notin> set (conts (microtasks ?m))" using assms(4) by simp
    show "\<And>p ws. promises ?m p = Pending ws \<Longrightarrow> c \<notin> set ws"
      using ci(7)[of _ _ c] assms(3) by auto
  qed
  have 3: "abort_inv ?t" using abort_inv_finish[OF am] .
  note oth = finish_other[of _ c out' ?m]
  have self: "phase (calls ?t ! c) = Done" using finish_self(1)[of c ?m out'] assms(2) by simp
  have 1: "slot_inv ?t"
  proof (rule slot_invI)
    fix i assume "current ?t = Some i"
    then have nc: "\<not> isCurrent (thisRef (calls s ! c))" and i: "current s = Some i"
      by (simp_all split: if_splits)
    from slot_invD1[OF s(1) i] nc have "i \<noteq> c" by auto
    with slot_invD1[OF s(1) i] oth[of i] show
      "i < length (calls ?t) \<and> awaiting (phase (calls ?t ! i)) \<and> isCurrent (thisRef (calls ?t ! i))"
      by simp
  next
    fix i assume i: "i < length (calls ?t)" and a: "awaiting (phase (calls ?t ! i))"
      and cu: "isCurrent (thisRef (calls ?t ! i))"
    have ic: "i \<noteq> c" using a self by auto
    with slot_invD2[OF s(1), of i] i a cu oth[of i] have csi: "current s = Some i" by simp
    have "\<not> isCurrent (thisRef (calls s ! c))"
    proof
      assume "isCurrent (thisRef (calls s ! c))"
      with slot_invD2[OF s(1) assms(2)] assms(3) have "current s = Some c" by simp
      with csi ic show False by simp
    qed
    with csi show "current ?t = Some i" by simp
  qed
  show ?thesis using 1 2 3 eq by (simp add: state_inv_def)
qed


subsection \<open>The getter signal\<close>

lemma signal_fields [simp]:
  "current (snd (signal r s)) = current s" "stack (snd (signal r s)) = stack s"
  "promises (snd (signal r s)) = promises s" "microtasks (snd (signal r s)) = microtasks s"
  "isPendingLog (snd (signal r s)) = isPendingLog s"
  "callbackLog (snd (signal r s)) = callbackLog s" "uncaught (snd (signal r s)) = uncaught s"
  "length (calls (snd (signal r s))) = length (calls s)"
  "phase (calls (snd (signal r s)) ! i) = phase (calls s ! i)"
  "hasContext (calls (snd (signal r s)) ! i) = hasContext (calls s ! i)"
  "onFulfilled (calls (snd (signal r s)) ! i) = onFulfilled (calls s ! i)"
  "onRejected (calls (snd (signal r s)) ! i) = onRejected (calls s ! i)"
  "returned (calls (snd (signal r s)) ! i) = returned (calls s ! i)"
  "isCurrent (thisRef (calls (snd (signal r s)) ! i)) = isCurrent (thisRef (calls s ! i))"
  by (simp_all add: signal_def prims Let_def split: option.split)

lemma signal_old:
  "abortController (thisRef (calls s ! r)) = Some a \<Longrightarrow> signal r s = (a, s)"
  by (simp add: signal_def)

lemma signal_new:
  assumes "abortController (thisRef (calls s ! r)) = None" "r < length (calls s)"
  shows "fst (signal r s) = length (controllers s)"
    and "abortController (thisRef (calls (snd (signal r s)) ! r)) = Some (length (controllers s))"
    and "\<And>i. i \<noteq> r \<Longrightarrow> calls (snd (signal r s)) ! i = calls s ! i"
    and "length (controllers (snd (signal r s))) = Suc (length (controllers s))"
    and "\<And>a. a < length (controllers s) \<Longrightarrow> controllers (snd (signal r s)) ! a = controllers s ! a"
    and "controllers (snd (signal r s)) ! length (controllers s) =
           (if isCurrent (thisRef (calls s ! r)) then \<lparr> aborted = False, reason = Undefined \<rparr>
            else \<lparr> aborted = True, reason = OnePromiseAbortError \<rparr>)"
  using assms by (simp_all add: signal_def prims Let_def nth_append abort_def)

lemma state_inv_signal:
  assumes "state_inv s" "r < length (calls s)"
  shows "state_inv (snd (signal r s))"
proof (cases "abortController (thisRef (calls s ! r))")
  case (Some a)
  then show ?thesis using assms(1) by (simp add: signal_old)
next
  case None
  let ?t = "snd (signal r s)"
  note n = signal_new[OF None assms(2)]
  from assms(1) have s: "slot_inv s" "control_inv s" "abort_inv s" by (simp_all add: state_inv_def)
  have 1: "slot_inv ?t" using s(1) slot_inv_cong[of ?t s] by simp
  have 2: "control_inv ?t" using s(2) by (simp add: control_inv_def)
  note ai = abort_invD[OF s(3)]
  have 3: "abort_inv ?t"
  proof (rule abort_invI)
    show "reason (controllers ?t ! a) = OnePromiseAbortError"
      if "a < length (controllers ?t)" "aborted (controllers ?t ! a)" for a
    proof (cases "a < length (controllers s)")
      case True
      with that ai(1)[of a] n(5)[of a] show ?thesis by simp
    next
      case False
      with that n(4) have "a = length (controllers s)" by simp
      with that(2) n(6) show ?thesis by (simp split: if_splits)
    qed
    show "a < length (controllers ?t)"
      if "c < length (calls ?t)" "abortController (thisRef (calls ?t ! c)) = Some a" for c a
    proof (cases "c = r")
      case True
      with that n(2) n(4) show ?thesis by simp
    next
      case False
      with that n(3)[of c] ai(2)[of c a] n(4) show ?thesis by simp
    qed
    show "aborted (controllers ?t ! a)"
      if "c < length (calls ?t)" "abortController (thisRef (calls ?t ! c)) = Some a"
        "\<not> isCurrent (thisRef (calls ?t ! c))" for c a
    proof (cases "c = r")
      case True
      with that n(2) have "a = length (controllers s)" by simp
      with that(3) True n(6) show ?thesis by simp
    next
      case False
      with that n(3)[of c] have c: "c < length (calls s)"
        "abortController (thisRef (calls s ! c)) = Some a" "\<not> isCurrent (thisRef (calls s ! c))"
        by simp_all
      from ai(2)[OF c(1,2)] ai(3)[OF c] n(5)[of a] show ?thesis by simp
    qed
  qed
  show ?thesis using 1 2 3 by (simp add: state_inv_def)
qed

subsection \<open>A promise settles\<close>

lemma fold_set_phase:
  "fold (\<lambda>c. set_phase c ph) ws s =
     s\<lparr> calls := fold (\<lambda>c cs. cs[c := (cs ! c)\<lparr> phase := ph \<rparr>]) ws (calls s) \<rparr>"
  by (induction ws arbitrary: s) (simp_all add: set_phase_def)

lemma fold_phase_length [simp]:
  "length (fold (\<lambda>c cs. cs[c := (cs ! c)\<lparr> phase := ph \<rparr>]) ws cs) = length cs"
  by (induction ws arbitrary: cs) simp_all

lemma fold_phase_other [simp]:
  "thisRef (fold (\<lambda>c cs. cs[c := (cs ! c)\<lparr> phase := ph \<rparr>]) ws cs ! i) = thisRef (cs ! i)"
  "hasContext (fold (\<lambda>c cs. cs[c := (cs ! c)\<lparr> phase := ph \<rparr>]) ws cs ! i) = hasContext (cs ! i)"
  "onFulfilled (fold (\<lambda>c cs. cs[c := (cs ! c)\<lparr> phase := ph \<rparr>]) ws cs ! i) = onFulfilled (cs ! i)"
  "onRejected (fold (\<lambda>c cs. cs[c := (cs ! c)\<lparr> phase := ph \<rparr>]) ws cs ! i) = onRejected (cs ! i)"
  "returned (fold (\<lambda>c cs. cs[c := (cs ! c)\<lparr> phase := ph \<rparr>]) ws cs ! i) = returned (cs ! i)"
  by (induction ws arbitrary: cs; simp)+

lemma fold_phase_nth:
  "i < length cs \<Longrightarrow>
   phase (fold (\<lambda>c cs. cs[c := (cs ! c)\<lparr> phase := ph \<rparr>]) ws cs ! i) =
     (if i \<in> set ws then ph else phase (cs ! i))"
proof (induction ws arbitrary: cs)
  case Nil
  then show ?case by simp
next
  case (Cons w ws)
  then show ?case by (simp add: nth_list_update)
qed

lemma settle_settled: "promises s p = Settled x \<Longrightarrow> settle p out s = s"
  by (simp add: settle_def)

lemma settle_pending:
  assumes "promises s p = Pending ws"
  shows "current (settle p out s) = current s" "stack (settle p out s) = stack s"
    "controllers (settle p out s) = controllers s"
    "promises (settle p out s) = (promises s)(p := Settled out)"
    "microtasks (settle p out s) = microtasks s @ map (\<lambda>c. Continue c out) ws"
    "length (calls (settle p out s)) = length (calls s)"
    "\<And>i. thisRef (calls (settle p out s) ! i) = thisRef (calls s ! i)"
    "\<And>i. i < length (calls s) \<Longrightarrow>
       phase (calls (settle p out s) ! i) = (if i \<in> set ws then Queued else phase (calls s ! i))"
  using assms by (simp_all add: settle_def fold_set_phase fold_phase_nth)

lemma settle_fields [simp]:
  "current (settle p out s) = current s" "stack (settle p out s) = stack s"
  "controllers (settle p out s) = controllers s"
  "length (calls (settle p out s)) = length (calls s)"
  "thisRef (calls (settle p out s) ! i) = thisRef (calls s ! i)"
  "hasContext (calls (settle p out s) ! i) = hasContext (calls s ! i)"
  "onFulfilled (calls (settle p out s) ! i) = onFulfilled (calls s ! i)"
  "onRejected (calls (settle p out s) ! i) = onRejected (calls s ! i)"
  "returned (calls (settle p out s) ! i) = returned (calls s ! i)"
  "isPendingLog (settle p out s) = isPendingLog s"
  "callbackLog (settle p out s) = callbackLog s" "uncaught (settle p out s) = uncaught s"
  "notifs (microtasks (settle p out s)) = notifs (microtasks s)"
  by (cases "promises s p"; simp add: settle_def fold_set_phase)+

lemma state_inv_settle:
  assumes "state_inv s"
  shows "state_inv (settle p out s)"
proof (cases "promises s p")
  case (Settled x)
  then show ?thesis using assms by (simp add: settle_settled)
next
  case (Pending ws)
  let ?t = "settle p out s"
  note f = settle_pending[OF Pending, where out = out]
  from assms(1) have s: "slot_inv s" "control_inv s" "abort_inv s" by (simp_all add: state_inv_def)
  note ci = control_invD[OF s(2)]
  have ws: "\<And>c. c \<in> set ws \<Longrightarrow> c < length (calls s) \<and> phase (calls s ! c) = Suspended p"
    using ci(7)[OF Pending] .
  have aw: "awaiting (phase (calls ?t ! i)) = awaiting (phase (calls s ! i))"
    if "i < length (calls s)" for i
    using f(8)[OF that] ws[of i] by auto
  have 1: "slot_inv ?t" using s(1) slot_inv_cong[of ?t s] aw by simp
  have 3: "abort_inv ?t" using s(3) abort_inv_cong[of ?t s] by simp
  have 2: "control_inv ?t"
  proof (rule control_invI)
    show "distinct (stack ?t)" using ci(1) by simp
    show "i < length (calls ?t) \<and> phase (calls ?t ! i) = Running" if "i \<in> set (stack ?t)" for i
    proof -
      from that ci(2)[of i] have i: "i < length (calls s)" "phase (calls s ! i) = Running" by simp_all
      with ws[of i] have "i \<notin> set ws" by auto
      with i f(8)[of i] show ?thesis by simp
    qed
    show "isCurrent (thisRef (calls ?t ! i))"
      if "i < length (calls ?t)" "phase (calls ?t ! i) = Running" for i
    proof -
      from that have i: "i < length (calls s)" by simp
      with that(2) f(8)[of i] have "phase (calls s ! i) = Running" by (simp split: if_splits)
      with ci(3)[OF i] show ?thesis by simp
    qed
    have disj: "set (conts (microtasks s)) \<inter> set ws = {}"
    proof -
      have False if "c \<in> set (conts (microtasks s))" "c \<in> set ws" for c
        using ci(5)[OF that(1)] ws[OF that(2)] by simp
      then show ?thesis by blast
    qed
    show "distinct (conts (microtasks ?t))" using ci(4) ci(6)[OF Pending] disj by (simp add: f(5))
    show "i < length (calls ?t) \<and> phase (calls ?t ! i) = Queued"
      if "i \<in> set (conts (microtasks ?t))" for i
    proof -
      from that have "i \<in> set (conts (microtasks s)) \<or> i \<in> set ws" by (simp add: f(5))
      then show ?thesis
      proof
        assume "i \<in> set (conts (microtasks s))"
        from ci(5)[OF this] f(8)[of i] show ?thesis by simp
      next
        assume "i \<in> set ws"
        with ws[of i] f(8)[of i] show ?thesis by simp
      qed
    qed
    show "distinct ws'" if "promises ?t q = Pending ws'" for q ws'
      using that ci(6)[of q ws'] by (simp add: f(4) split: if_splits)
    show "i < length (calls ?t) \<and> phase (calls ?t ! i) = Suspended q"
      if "promises ?t q = Pending ws'" "i \<in> set ws'" for q ws' i
    proof -
      from that(1) have q: "q \<noteq> p" "promises s q = Pending ws'" by (simp_all add: f(4) split: if_splits)
      from ci(7)[OF q(2) that(2)] have i: "i < length (calls s)" "phase (calls s ! i) = Suspended q"
        by simp_all
      with ws[of i] q(1) have "i \<notin> set ws" by auto
      with i f(8)[of i] show ?thesis by simp
    qed
  qed
  show ?thesis using 1 2 3 by (simp add: state_inv_def)
qed


subsection \<open>Every step keeps the invariants\<close>

lemma state_inv_pop_task:
  assumes "state_inv s" "microtasks s = t # ts"
  shows "state_inv (s\<lparr> microtasks := ts \<rparr>)"
proof -
  let ?t = "s\<lparr> microtasks := ts \<rparr>"
  from assms(1) have s: "slot_inv s" "control_inv s" "abort_inv s" by (simp_all add: state_inv_def)
  have sub: "set (conts ts) \<subseteq> set (conts (microtasks s))" "distinct (conts ts)"
    using control_invD(4)[OF s(2)] assms(2) by (cases t; auto)+
  have "control_inv ?t" using s(2) sub by (simp add: control_inv_def subset_iff)
  moreover have "slot_inv ?t" using s(1) slot_inv_cong[of ?t s] by simp
  moreover have "abort_inv ?t" using s(3) abort_inv_cong[of ?t s] by simp
  ultimately show ?thesis by (simp add: state_inv_def)
qed

lemma state_inv_logs:
  assumes "state_inv s"
  shows "state_inv (s\<lparr> isPendingLog := l \<rparr>)" "state_inv (s\<lparr> isPendingLog := l, uncaught := u \<rparr>)"
proof -
  from assms(1) have s: "slot_inv s" "control_inv s" "abort_inv s" by (simp_all add: state_inv_def)
  show "state_inv (s\<lparr> isPendingLog := l \<rparr>)"
    using s slot_inv_cong[of "s\<lparr> isPendingLog := l \<rparr>" s]
      abort_inv_cong[of "s\<lparr> isPendingLog := l \<rparr>" s]
      control_inv_cong[of "s\<lparr> isPendingLog := l \<rparr>" s]
    by (simp add: state_inv_def)
  show "state_inv (s\<lparr> isPendingLog := l, uncaught := u \<rparr>)"
    using s slot_inv_cong[of "s\<lparr> isPendingLog := l, uncaught := u \<rparr>" s]
      abort_inv_cong[of "s\<lparr> isPendingLog := l, uncaught := u \<rparr>" s]
      control_inv_cong[of "s\<lparr> isPendingLog := l, uncaught := u \<rparr>" s]
    by (simp add: state_inv_def)
qed

lemma state_inv_run_task:
  assumes "state_inv s" "microtasks s = t # ts"
  shows "state_inv (run_task oc t (s\<lparr> microtasks := ts \<rparr>))"
proof (cases t)
  case (Notify b)
  from state_inv_pop_task[OF assms] have p: "state_inv (s\<lparr> microtasks := ts \<rparr>)" .
  show ?thesis
  proof (cases oc)
    case None
    with Notify p show ?thesis by simp
  next
    case (Some f)
    with Notify state_inv_logs[OF p] show ?thesis
      by (cases "f b") (simp_all add: Let_def)
  qed
next
  case (Continue c out)
  from state_inv_pop_task[OF assms] have p: "state_inv (s\<lparr> microtasks := ts \<rparr>)" .
  from assms(1) have ci: "control_inv s" by (simp add: state_inv_def)
  from control_invD(4,5)[OF ci] assms(2) Continue
  have c: "c < length (calls s)" "phase (calls s ! c) = Queued" "c \<notin> set (conts ts)"
    by auto
  from state_inv_next_resume[OF p, of c out] c Continue show ?thesis by simp
qed

lemma state_inv_step:
  assumes "state_inv s"
  shows "state_inv (step oc e s)"
proof (cases e)
  case (Call v onF onR)
  then show ?thesis using state_inv_next_enter[OF assms] by simp
next
  case (Return v)
  show ?thesis
  proof (cases "stack s")
    case Nil
    with Return assms show ?thesis by simp
  next
    case (Cons c cs)
    from assms have ci: "control_inv s" by (simp add: state_inv_def)
    from control_invD(1,2)[OF ci] Cons
    have c: "c < length (calls s)" "phase (calls s ! c) = Running" "c \<notin> set cs" "distinct cs"
      by auto
    have p: "state_inv (s\<lparr> stack := cs \<rparr>)"
      by (rule state_inv_stack[OF assms]) (use Cons c in auto)
    from state_inv_next_track[OF p, of c v] c Return Cons show ?thesis by simp
  qed
next
  case (Throw x)
  show ?thesis
  proof (cases "stack s")
    case Nil
    with Throw assms show ?thesis by simp
  next
    case (Cons c cs)
    from assms have ci: "control_inv s" by (simp add: state_inv_def)
    from control_invD(1,2)[OF ci] Cons
    have c: "c < length (calls s)" "phase (calls s ! c) = Running" "c \<notin> set cs" "distinct cs"
      by auto
    have p: "state_inv (s\<lparr> stack := cs \<rparr>)"
      by (rule state_inv_stack[OF assms]) (use Cons c in auto)
    from state_inv_next_throw[OF p, of c x] c Throw Cons show ?thesis by simp
  qed
next
  case (GetSignal r)
  then show ?thesis using assms state_inv_signal[OF assms, of r] by simp
next
  case (Settle p out)
  then show ?thesis using state_inv_settle[OF assms] by simp
next
  case Tick
  show ?thesis
  proof (cases "stack s")
    case Nil
    show ?thesis
    proof (cases "microtasks s")
      case Nil': Nil
      with Nil Tick assms show ?thesis by simp
    next
      case (Cons t ts)
      with Nil Tick state_inv_run_task[OF assms Cons, of oc] show ?thesis by simp
    qed
  next
    case (Cons c cs)
    with Tick assms show ?thesis by simp
  qed
qed

lemma state_inv_exec: "state_inv s \<Longrightarrow> state_inv (exec oc es s)"
  by (induction es arbitrary: s) (simp_all add: state_inv_step)

lemma exec_append: "exec oc (es @ es') s = exec oc es' (exec oc es s)"
  by (induction es arbitrary: s) simp_all

lemma reachable_state_inv: "reachable oc s \<Longrightarrow> state_inv s"
  unfolding reachable_def using state_inv_exec[OF state_inv_init] by blast

lemma reachable_init: "reachable oc init"
  unfolding reachable_def by (rule exI[of _ "[]"]) simp

lemma reachable_exec: "reachable oc s \<Longrightarrow> reachable oc (exec oc es s)"
  unfolding reachable_def by (metis exec_append)

subsection \<open>Fields after each part of next\<close>

lemma next_track_fields [simp]:
  "length (calls (next_track c v s)) = length (calls s)"
  "abortController (thisRef (calls (next_track c v s) ! i)) = abortController (thisRef (calls s ! i))"
  "current (next_track c v s) = Some c"
  "stack (next_track c v s) = stack s"
  "isPendingLog (next_track c v s) = isPendingLog s"
  "callbackLog (next_track c v s) = callbackLog s"
  "uncaught (next_track c v s) = uncaught s"
  by (simp_all add: next_track_def)

lemma next_complete_fields [simp]:
  "length (calls (next_complete c out s)) = length (calls s)"
  "thisRef (calls (next_complete c out s) ! i) = thisRef (calls s ! i)"
  "current (next_complete c out s) = current s"
  "stack (next_complete c out s) = stack s"
  "microtasks (next_complete c out s) = microtasks s"
  "promises (next_complete c out s) = promises s"
  "controllers (next_complete c out s) = controllers s"
  "isPendingLog (next_complete c out s) = isPendingLog s"
  "uncaught (next_complete c out s) = uncaught s"
  by (simp_all add: next_complete_def Let_def split: outcome.split option.split)

lemma next_resume_fields [simp]:
  "length (calls (next_resume c out s)) = length (calls s)"
  "thisRef (calls (next_resume c out s) ! i) = thisRef (calls s ! i)"
  "stack (next_resume c out s) = stack s"
  "promises (next_resume c out s) = promises s"
  "controllers (next_resume c out s) = controllers s"
  "isPendingLog (next_resume c out s) = isPendingLog s"
  "uncaught (next_resume c out s) = uncaught s"
  "current (next_resume c out s) = (if isCurrent (thisRef (calls s ! c)) then None else current s)"
  by (simp_all add: next_resume_def)

lemma next_enter_length:
  "length (calls (next_enter v onF onR s)) = Suc (length (calls s))"
  by (simp add: next_enter_def Let_def)

lemma next_enter_abortController:
  "i < length (calls s) \<Longrightarrow>
   abortController (thisRef (calls (next_enter v onF onR s) ! i)) =
     abortController (thisRef (calls s ! i))"
  by (simp add: next_enter_def Let_def nth_append)

lemma signal_keeps_controller:
  assumes "abortController (thisRef (calls s ! i)) = Some a"
  shows "abortController (thisRef (calls (snd (signal r s)) ! i)) = Some a"
proof (cases "abortController (thisRef (calls s ! r))")
  case (Some b)
  then show ?thesis using assms by (simp add: signal_old)
next
  case None
  with assms have "i \<noteq> r" by auto
  then show ?thesis using assms None by (simp add: signal_def prims Let_def)
qed

lemma step_keeps_controller:
  assumes "r < length (calls s)" "abortController (thisRef (calls s ! r)) = Some a"
  shows "r < length (calls (step oc e s)) \<and>
         abortController (thisRef (calls (step oc e s) ! r)) = Some a"
proof (cases e)
  case (Call v onF onR)
  then show ?thesis using assms by (simp add: next_enter_length next_enter_abortController)
next
  case (Return v)
  then show ?thesis using assms by (cases "stack s") simp_all
next
  case (Throw x)
  then show ?thesis using assms by (cases "stack s") (simp_all add: next_throw_def)
next
  case (GetSignal q)
  then show ?thesis using assms signal_keeps_controller[OF assms(2), of q] by simp
next
  case (Settle p out)
  then show ?thesis using assms by simp
next
  case Tick
  show ?thesis
  proof (cases "stack s")
    case Nil
    show ?thesis
    proof (cases "microtasks s")
      case Nil': Nil
      with Nil Tick assms show ?thesis by simp
    next
      case (Cons t ts)
      show ?thesis
      proof (cases t)
        case (Notify b)
        with Nil Cons Tick assms show ?thesis
          by (cases oc) (simp_all add: Let_def split: option.split)
      next
        case (Continue c out)
        with Nil Cons Tick assms show ?thesis by simp
      qed
    qed
  next
    case (Cons c cs)
    with Tick assms show ?thesis by simp
  qed
qed

lemma exec_keeps_controller:
  assumes "r < length (calls s)" "abortController (thisRef (calls s ! r)) = Some a"
  shows "r < length (calls (exec oc es s)) \<and>
         abortController (thisRef (calls (exec oc es s) ! r)) = Some a"
  using assms
proof (induction es arbitrary: s)
  case Nil
  then show ?case by simp
next
  case (Cons e es)
  from step_keeps_controller[OF Cons.prems, of oc e] Cons.IH[of "step oc e s"]
  show ?case by simp
qed

lemma signal_sets_controller:
  assumes "r < length (calls s)"
  shows "abortController (thisRef (calls (snd (signal r s)) ! r)) = Some (fst (signal r s))"
proof (cases "abortController (thisRef (calls s ! r))")
  case (Some b)
  then show ?thesis by (simp add: signal_old)
next
  case None
  from signal_new(1,2)[OF None assms] show ?thesis by simp
qed

lemma next_supersede_notifs:
  "notifs (microtasks (next_supersede c s)) =
     notifs (microtasks s) @ (if current s = None then [True] else [])"
  by (cases "current s"; simp add: next_supersede_def prims Let_def split: option.split)

lemma next_track_notifs:
  "notifs (microtasks (next_track c v s)) =
     notifs (microtasks s) @ (if current s = None then [True] else [])"
  by (simp add: next_track_def next_supersede_notifs)

lemma next_enter_notifs:
  "typeof v \<noteq> ''function'' \<Longrightarrow>
   notifs (microtasks (next_enter v onF onR s)) =
     notifs (microtasks s) @ (if current s = None then [True] else [])"
  by (simp add: next_enter_def Let_def next_track_notifs)

lemma tracked_step:
  assumes "slot_inv s" "tracked e s = Some b"
  shows "current (step oc e s) = Some b \<and>
         (\<forall>p. current s = Some p \<longrightarrow> \<not> isCurrent (thisRef (calls (step oc e s) ! p)))"
proof (cases e)
  case (Call v onF onR)
  with assms(2) have nf: "typeof v \<noteq> ''function''" and b: "b = length (calls s)"
    by (simp_all split: if_splits)
  let ?k = "\<lparr> thisRef = \<lparr> isCurrent = True, abortController = None \<rparr>,
              hasContext = False, onFulfilled = onF, onRejected = onR,
              phase = Running, returned = None \<rparr>"
  let ?s1 = "s\<lparr> calls := calls s @ [?k] \<rparr>"
  have eq: "step oc e s = next_track b v ?s1" using Call nf b by (simp add: next_enter_def Let_def)
  have "\<not> isCurrent (thisRef (calls (next_track b v ?s1) ! p))" if "current s = Some p" for p
  proof -
    from slot_invD1[OF assms(1) that] have "p < length (calls ?s1)" by simp
    then show ?thesis using that by (simp add: next_track_def next_supersede_isCurrent)
  qed
  then show ?thesis unfolding eq by simp
next
  case (Return v)
  with assms(2) obtain cs where st: "stack s = b # cs" by (cases "stack s") simp_all
  have eq: "step oc e s = next_track b v (s\<lparr> stack := cs \<rparr>)" using Return st by simp
  have "\<not> isCurrent (thisRef (calls (next_track b v (s\<lparr> stack := cs \<rparr>)) ! p))"
    if "current s = Some p" for p
  proof -
    from slot_invD1[OF assms(1) that] have "p < length (calls (s\<lparr> stack := cs \<rparr>))" by simp
    then show ?thesis using that by (simp add: next_track_def next_supersede_isCurrent)
  qed
  then show ?thesis unfolding eq by simp
qed (use assms(2) in simp_all)

subsection \<open>The errors no one caught are read by no step\<close>

lemma uncaught_commute:
  "next_enter v onF onR (t\<lparr> uncaught := u \<rparr>) = (next_enter v onF onR t)\<lparr> uncaught := u \<rparr>"
  "next_track c v (t\<lparr> uncaught := u \<rparr>) = (next_track c v t)\<lparr> uncaught := u \<rparr>"
  "next_throw c e (t\<lparr> uncaught := u \<rparr>) = (next_throw c e t)\<lparr> uncaught := u \<rparr>"
  "next_resume c out (t\<lparr> uncaught := u \<rparr>) = (next_resume c out t)\<lparr> uncaught := u \<rparr>"
  "snd (signal r (t\<lparr> uncaught := u \<rparr>)) = (snd (signal r t))\<lparr> uncaught := u \<rparr>"
  "settle p out (t\<lparr> uncaught := u \<rparr>) = (settle p out t)\<lparr> uncaught := u \<rparr>"
  by (simp_all add: eval fold_set_phase split: option.split val.split pstate.split outcome.split)

lemma uncaught_swap:
  "t\<lparr> uncaught := u, stack := cs \<rparr> = t\<lparr> stack := cs, uncaught := u \<rparr>"
  "t\<lparr> uncaught := u, microtasks := ks \<rparr> = t\<lparr> microtasks := ks, uncaught := u \<rparr>"
  by (rule state.equality; simp)+

lemma step_uncaught:
  "\<exists>u'. step (Some f) e (t\<lparr> uncaught := u \<rparr>) = (step (Some g) e t)\<lparr> uncaught := u' \<rparr>"
proof (cases e)
  case (Call v onF onR)
  then show ?thesis by (simp add: uncaught_commute) blast
next
  case (Return v)
  show ?thesis
  proof (cases "stack t")
    case Nil
    with Return show ?thesis by simp blast
  next
    case (Cons c cs)
    have "next_track c v (t\<lparr> uncaught := u, stack := cs \<rparr>) =
            (next_track c v (t\<lparr> stack := cs \<rparr>))\<lparr> uncaught := u \<rparr>"
      using uncaught_commute(2)[where t = "t\<lparr> stack := cs \<rparr>" and u = u and c = c and v = v]
      by (simp add: uncaught_swap)
    with Return Cons show ?thesis by simp blast
  qed
next
  case (Throw x)
  show ?thesis
  proof (cases "stack t")
    case Nil
    with Throw show ?thesis by simp blast
  next
    case (Cons c cs)
    have "next_throw c x (t\<lparr> uncaught := u, stack := cs \<rparr>) =
            (next_throw c x (t\<lparr> stack := cs \<rparr>))\<lparr> uncaught := u \<rparr>"
      using uncaught_commute(3)[where t = "t\<lparr> stack := cs \<rparr>" and u = u and c = c and e = x]
      by (simp add: uncaught_swap)
    with Throw Cons show ?thesis by simp blast
  qed
next
  case (GetSignal r)
  then show ?thesis by (simp add: uncaught_commute) blast
next
  case (Settle p out)
  then show ?thesis by (simp add: uncaught_commute) blast
next
  case Tick
  show ?thesis
  proof (cases "stack t")
    case (Cons c cs)
    with Tick show ?thesis by simp blast
  next
    case Nil
    show ?thesis
    proof (cases "microtasks t")
      case Nil': Nil
      with Nil Tick show ?thesis by simp blast
    next
      case (Cons k ks)
      show ?thesis
      proof (cases k)
        case (Notify b)
        have "run_task (Some f) (Notify b) (t\<lparr> uncaught := u, microtasks := ks \<rparr>) =
                (run_task (Some g) (Notify b) (t\<lparr> microtasks := ks \<rparr>))
                  \<lparr> uncaught := (case f b of None \<Rightarrow> u | Some x \<Rightarrow> u @ [x]) \<rparr>"
          by (cases "f b"; cases "g b"; simp add: Let_def; rule state.equality; simp)
        then have "\<exists>u'. run_task (Some f) (Notify b) (t\<lparr> uncaught := u, microtasks := ks \<rparr>) =
                (run_task (Some g) (Notify b) (t\<lparr> microtasks := ks \<rparr>))\<lparr> uncaught := u' \<rparr>"
          by blast
        with Nil Cons Tick Notify show ?thesis by simp
      next
        case (Continue c out)
        have "next_resume c out (t\<lparr> uncaught := u, microtasks := ks \<rparr>) =
                (next_resume c out (t\<lparr> microtasks := ks \<rparr>))\<lparr> uncaught := u \<rparr>"
          using uncaught_commute(4)[where t = "t\<lparr> microtasks := ks \<rparr>" and u = u and c = c and out = out]
          by (simp add: uncaught_swap)
        with Nil Cons Tick Continue show ?thesis by simp blast
      qed
    qed
  qed
qed

lemma exec_uncaught:
  "\<exists>u'. exec (Some f) es (t\<lparr> uncaught := u \<rparr>) = (exec (Some g) es t)\<lparr> uncaught := u' \<rparr>"
proof (induction es arbitrary: t u)
  case Nil
  then show ?case by simp blast
next
  case (Cons e es)
  from step_uncaught[where f = f and e = e and t = t and u = u and g = g] obtain u1 where
    "step (Some f) e (t\<lparr> uncaught := u \<rparr>) = (step (Some g) e t)\<lparr> uncaught := u1 \<rparr>" by blast
  with Cons.IH[where t = "step (Some g) e t" and u = u1] show ?case by simp
qed

subsection \<open>Notifications follow the slot\<close>

lemma edge_same [simp]: "edge x x = []"
  by (cases x) simp_all

lemma edge_Some: "edge x (Some c) = (if x = None then [True] else [])"
  by (cases x) simp_all

lemma edge_None: "edge x None = (if x = None then [] else [False])"
  by (cases x) simp_all

lemma next_enter_fields [simp]:
  "isPendingLog (next_enter v onF onR s) = isPendingLog s"
  "callbackLog (next_enter v onF onR s) = callbackLog s"
  "uncaught (next_enter v onF onR s) = uncaught s"
  by (simp_all add: next_enter_def Let_def)

lemma next_enter_function:
  "typeof v = ''function'' \<Longrightarrow> current (next_enter v onF onR s) = current s"
  "typeof v = ''function'' \<Longrightarrow> microtasks (next_enter v onF onR s) = microtasks s"
  by (simp_all add: next_enter_def Let_def)

lemma next_enter_value:
  assumes "typeof v \<noteq> ''function''"
  shows "current (next_enter v onF onR s) = Some (length (calls s))"
    and "awaiting (phase (calls (next_enter v onF onR s) ! length (calls s)))"
    and "stack (next_enter v onF onR s) = stack s"
proof -
  let ?k = "\<lparr> thisRef = \<lparr> isCurrent = True, abortController = None \<rparr>,
              hasContext = False, onFulfilled = onF, onRejected = onR,
              phase = Running, returned = None \<rparr>"
  let ?s1 = "s\<lparr> calls := calls s @ [?k] \<rparr>"
  have eq: "next_enter v onF onR s = next_track (length (calls s)) v ?s1"
    using assms by (simp add: next_enter_def Let_def)
  show "current (next_enter v onF onR s) = Some (length (calls s))"
    "stack (next_enter v onF onR s) = stack s" by (simp_all add: eq)
  have "length (calls s) < length (calls (next_supersede (length (calls s)) ?s1))" by simp
  from await_phase[OF this, of v] show "awaiting (phase (calls (next_enter v onF onR s) ! length (calls s)))"
    by (simp add: eq next_track_def)
qed

lemma next_resume_notifs:
  "notifs (microtasks (next_resume c out s)) =
     notifs (microtasks s) @ (if isCurrent (thisRef (calls s ! c)) then [False] else [])"
  by (simp add: next_resume_def next_finally_def queueMicrotask_def)

lemma next_resume_phase:
  "c < length (calls s) \<Longrightarrow> phase (calls (next_resume c out s) ! c) = Done"
  "i \<noteq> c \<Longrightarrow> calls (next_resume c out s) ! i = calls s ! i"
  by (simp_all add: next_resume_def next_complete_def Let_def finish_def
      split: outcome.split option.split)

lemma announced_step:
  assumes "state_inv s"
  shows "announced (step (Some f) e s) = announced s @ edge (current s) (current (step (Some f) e s))"
proof (cases e)
  case (Call v onF onR)
  show ?thesis
  proof (cases "typeof v = ''function''")
    case True
    with Call show ?thesis by (simp add: announced_def next_enter_function)
  next
    case False
    with Call show ?thesis
      by (simp add: announced_def next_enter_notifs next_enter_value(1) edge_Some)
  qed
next
  case (Return v)
  then show ?thesis
    by (cases "stack s") (simp_all add: announced_def next_track_notifs edge_Some)
next
  case (Throw x)
  then show ?thesis by (cases "stack s") (simp_all add: announced_def next_throw_def)
next
  case (GetSignal r)
  then show ?thesis by (simp add: announced_def)
next
  case (Settle p out)
  then show ?thesis by (simp add: announced_def)
next
  case Tick
  show ?thesis
  proof (cases "stack s")
    case (Cons c cs)
    with Tick show ?thesis by simp
  next
    case Nil
    show ?thesis
    proof (cases "microtasks s")
      case Nil': Nil
      with Nil Tick show ?thesis by simp
    next
      case (Cons t ts)
      show ?thesis
      proof (cases t)
        case (Notify b)
        with Nil Cons Tick show ?thesis
          by (cases "f b") (simp_all add: announced_def Let_def)
      next
        case (Continue c out)
        from assms have si: "slot_inv s" and ci: "control_inv s" by (simp_all add: state_inv_def)
        from control_invD(5)[OF ci, of c] Cons Continue
        have c: "c < length (calls s)" "phase (calls s ! c) = Queued" by simp_all
        have "current s = Some c" if "isCurrent (thisRef (calls s ! c))"
          using slot_invD2[OF si c(1)] c(2) that by simp
        with Nil Cons Tick Continue show ?thesis
          by (auto simp: announced_def next_resume_notifs edge_None)
      qed
    qed
  qed
qed

text \<open>Following one record through events that are no call.\<close>

lemma quiet_step:
  assumes "state_inv s" "quiet e" "k < length (calls s)"
    and "if phase (calls s ! k) = Done then current s = None else current s = Some k"
  shows "length (calls (step oc e s)) = length (calls s)"
    and "if phase (calls (step oc e s) ! k) = Done then current (step oc e s) = None
         else current (step oc e s) = Some k"
    and "phase (calls s ! k) = Done \<Longrightarrow> phase (calls (step oc e s) ! k) = Done"
proof -
  from assms(1) have si: "slot_inv s" and ci: "control_inv s" by (simp_all add: state_inv_def)
  let ?goal = "length (calls (step oc e s)) = length (calls s) \<and>
    (if phase (calls (step oc e s) ! k) = Done then current (step oc e s) = None
         else current (step oc e s) = Some k) \<and>
    (phase (calls s ! k) = Done \<longrightarrow> phase (calls (step oc e s) ! k) = Done)"
  have ?goal
  proof (cases e)
    case (GetSignal r)
    then show ?thesis using assms(4) by simp
  next
    case (Settle p out)
    show ?thesis
    proof (cases "promises s p")
      case (Settled x)
      with Settle assms(4) show ?thesis by (simp add: settle_settled)
    next
      case (Pending ws)
      note f = settle_pending[OF Pending, where out = out]
      have "phase (calls (settle p out s) ! k) = Done \<longleftrightarrow> phase (calls s ! k) = Done"
        using f(8)[OF assms(3)] control_invD(7)[OF ci Pending, of k] by auto
      with Settle assms(4) show ?thesis by simp
    qed
  next
    case Tick
    show ?thesis
    proof (cases "stack s")
      case (Cons c cs)
      with Tick assms(4) show ?thesis by simp
    next
      case Nil
      show ?thesis
      proof (cases "microtasks s")
        case Nil': Nil
        with Nil Tick assms(4) show ?thesis by simp
      next
        case (Cons t ts)
        show ?thesis
        proof (cases t)
          case (Notify b)
          with Nil Cons Tick assms(4) show ?thesis
            by (cases oc) (simp_all add: Let_def split: option.split)
        next
          case (Continue c out)
          from control_invD(5)[OF ci, of c] Cons Continue
          have c: "c < length (calls s)" "phase (calls s ! c) = Queued" by simp_all
          let ?p = "s\<lparr> microtasks := ts \<rparr>"
          have st: "step oc e s = next_resume c out ?p" using Nil Cons Tick Continue by simp
          show ?thesis
          proof (cases "c = k")
            case True
            with c(2) assms(4) have "current s = Some k" by simp
            from slot_invD1[OF si this] have "isCurrent (thisRef (calls s ! k))" by simp
            with True c(1) next_resume_phase(1)[of k ?p out] show ?thesis
              unfolding st by simp
          next
            case False
            have "\<not> isCurrent (thisRef (calls s ! c))"
            proof
              assume "isCurrent (thisRef (calls s ! c))"
              with slot_invD2[OF si c(1)] c(2) have "current s = Some c" by simp
              with assms(4) False show False by (simp split: if_splits)
            qed
            with False assms(4) next_resume_phase(2)[of k c out ?p] show ?thesis
              unfolding st by simp
          qed
        qed
      qed
    qed
  qed (use assms(2) in simp_all)
  then show "length (calls (step oc e s)) = length (calls s)"
    and "if phase (calls (step oc e s) ! k) = Done then current (step oc e s) = None
         else current (step oc e s) = Some k"
    and "phase (calls s ! k) = Done \<Longrightarrow> phase (calls (step oc e s) ! k) = Done"
    by simp_all
qed

lemma quiet_exec:
  assumes "state_inv s" "\<forall>e \<in> set es. quiet e" "k < length (calls s)"
    and "if phase (calls s ! k) = Done then current s = None else current s = Some k"
  shows "length (calls (exec (Some f) es s)) = length (calls s) \<and>
         (if phase (calls (exec (Some f) es s) ! k) = Done then current (exec (Some f) es s) = None
          else current (exec (Some f) es s) = Some k) \<and>
         (phase (calls s ! k) = Done \<longrightarrow> phase (calls (exec (Some f) es s) ! k) = Done) \<and>
         announced (exec (Some f) es s) =
           announced s @ (if phase (calls s ! k) \<noteq> Done \<and> phase (calls (exec (Some f) es s) ! k) = Done
                          then [False] else [])"
  using assms
proof (induction es arbitrary: s)
  case Nil
  then show ?case by simp
next
  case (Cons e es)
  let ?s1 = "step (Some f) e s"
  from Cons.prems(2) have q: "quiet e" "\<forall>e \<in> set es. quiet e" by simp_all
  note st = quiet_step[OF Cons.prems(1) q(1) Cons.prems(3,4), of "Some f"]
  have inv1: "state_inv ?s1" by (rule state_inv_step[OF Cons.prems(1)])
  have k1: "k < length (calls ?s1)" using st(1) Cons.prems(3) by simp
  note ih = Cons.IH[OF inv1 q(2) k1 st(2)]
  have a1: "announced ?s1 = announced s @ edge (current s) (current ?s1)"
    by (rule announced_step[OF Cons.prems(1)])
  have e1: "edge (current s) (current ?s1) =
    (if phase (calls s ! k) \<noteq> Done \<and> phase (calls ?s1 ! k) = Done then [False] else [])"
    using Cons.prems(4) st(2) st(3) by (auto split: if_splits)
  show ?case using ih st(1) st(3) a1 e1 by (auto split: if_splits)
qed

subsection \<open>The flags that the callbacks receive\<close>








section \<open>The claims\<close>

lemma superseded_example_eq:
  "superseded_example =
     \<lparr> current = Some 1,
       calls = [\<lparr> thisRef = \<lparr> isCurrent = False, abortController = None \<rparr>, hasContext = True,
                  onFulfilled = None, onRejected = None, phase = Suspended 0, returned = None \<rparr>,
                \<lparr> thisRef = \<lparr> isCurrent = True, abortController = None \<rparr>, hasContext = False,
                  onFulfilled = None, onRejected = None, phase = Queued, returned = None \<rparr>],
       controllers = [], stack = [],
       promises = (\<lambda>_. Pending [])(0 := Pending [0]),
       microtasks = [Notify True, Continue 1 (Fulfilled Null)],
       isPendingLog = [], callbackLog = [], uncaught = [] \<rparr>"
  by (simp add: superseded_example_def eval)

text \<open>
  Claim C7. When the getter \<^verbatim>\<open>signal\<close> is read for the first time (the record has no
  controller yet) on a record that has already been superseded, the signal it
  returns is aborted, with an \<^verbatim>\<open>OnePromiseAbortError\<close> as the reason, at the moment
  it is returned. This holds in every state.
\<close>

theorem C7_signal_pre_aborted:
  assumes "abortController (thisRef (calls s ! r)) = None"
    and "\<not> isCurrent (thisRef (calls s ! r))"
  shows "aborted (controllers (snd (signal r s)) ! fst (signal r s)) \<and>
         reason (controllers (snd (signal r s)) ! fst (signal r s)) = OnePromiseAbortError"
  using assms by (simp add: signal_def prims Let_def abort_def)

theorem C7_signal_pre_aborted_witness:
  "abortController (thisRef (calls superseded_example ! 0)) = None \<and>
   \<not> isCurrent (thisRef (calls superseded_example ! 0)) \<and>
   fst (signal 0 superseded_example) = 0 \<and>
   controllers (snd (signal 0 superseded_example)) =
     [\<lparr> aborted = True, reason = OnePromiseAbortError \<rparr>]"
proof -
  have h1: "abortController (thisRef (calls superseded_example ! 0)) = None"
    by (simp add: superseded_example_eq)
  have h2: "\<not> isCurrent (thisRef (calls superseded_example ! 0))"
    by (simp add: superseded_example_eq)
  have "fst (signal 0 superseded_example) = 0"
    "length (controllers (snd (signal 0 superseded_example))) = 1"
    by (simp_all add: superseded_example_eq eval)
  with C7_signal_pre_aborted[OF h1 h2] h1 h2 show ?thesis
    by (cases "controllers (snd (signal 0 superseded_example))") auto
qed

lemma getter_example_eq:
  "getter_example =
     \<lparr> current = None,
       calls = [\<lparr> thisRef = \<lparr> isCurrent = True, abortController = None \<rparr>, hasContext = True,
                  onFulfilled = None, onRejected = None, phase = Running, returned = None \<rparr>],
       controllers = [], stack = [0],
       promises = (\<lambda>_. Pending []),
       microtasks = [],
       isPendingLog = [], callbackLog = [], uncaught = [] \<rparr>"
  by (simp add: getter_example_def eval)

text \<open>
  Beyond the first read: in every reachable state, whatever read of the signal
  is made on the context of a superseded record, the signal returned is aborted
  with the error of this program.
\<close>

lemma signal_of_superseded_is_aborted:
  assumes "reachable oc s" "r < length (calls s)" "\<not> isCurrent (thisRef (calls s ! r))"
  shows "aborted (controllers (snd (signal r s)) ! fst (signal r s)) \<and>
         reason (controllers (snd (signal r s)) ! fst (signal r s)) = OnePromiseAbortError"
proof (cases "abortController (thisRef (calls s ! r))")
  case None
  then show ?thesis using assms(3) by (simp add: signal_def prims Let_def abort_def)
next
  case (Some a)
  from reachable_state_inv[OF assms(1)] have ai: "abort_inv s" by (simp add: state_inv_def)
  from abort_invD(2)[OF ai assms(2) Some] abort_invD(3)[OF ai assms(2) Some assms(3)]
    abort_invD(1)[OF ai, of a]
  show ?thesis by (simp add: signal_old[OF Some])
qed

text \<open>
  Claim C8. Once the getter \<^verbatim>\<open>signal\<close> has been read on the context of a record, every
  later read on the same context, after any events whatever, returns the
  identical handle (the same controller address), and creates no controller:
  the store of controllers is unchanged by the later read.
\<close>

theorem C8_signal_identical:
  assumes "r < length (calls s)"
  shows "fst (signal r (exec oc es (snd (signal r s)))) = fst (signal r s) \<and>
         controllers (snd (signal r (exec oc es (snd (signal r s))))) =
           controllers (exec oc es (snd (signal r s)))"
proof -
  let ?s1 = "snd (signal r s)"
  have r: "r < length (calls ?s1)" using assms by simp
  from exec_keeps_controller[OF r signal_sets_controller[OF assms], of oc es]
  have "abortController (thisRef (calls (exec oc es ?s1) ! r)) = Some (fst (signal r s))" by simp
  then show ?thesis by (simp add: signal_old)
qed

theorem C8_signal_identical_witness:
  "(0::nat) < length (calls getter_example) \<and>
   fst (signal 0 getter_example) = 0 \<and>
   fst (signal 0 (exec None [GetSignal 0, Return (SignalV 0), Call Null None None, Tick]
                   (snd (signal 0 getter_example)))) = 0 \<and>
   length (controllers (snd (signal 0 (exec None [GetSignal 0, Return (SignalV 0), Call Null None None, Tick]
                   (snd (signal 0 getter_example)))))) = 1"
proof -
  let ?t = "exec None [GetSignal 0, Return (SignalV 0), Call Null None None, Tick]
              (snd (signal 0 getter_example))"
  have h: "(0::nat) < length (calls getter_example)" by (simp add: getter_example_eq)
  have a: "fst (signal 0 getter_example) = 0" by (simp add: getter_example_eq eval)
  have l: "length (controllers ?t) = 1"
    by (simp add: getter_example_eq eval)
  from C8_signal_identical[OF h, of None "[GetSignal 0, Return (SignalV 0), Call Null None None, Tick]"]
  have e1: "fst (signal 0 ?t) = fst (signal 0 getter_example)"
    and e2: "controllers (snd (signal 0 ?t)) = controllers ?t"
    by blast+
  show ?thesis by (intro conjI) (simp_all only: h a e1 e2 l)
qed

text \<open>
  Claim C9. When \<^verbatim>\<open>typeof\<close> of the first argument is \<^verbatim>\<open>"function"\<close>, the call makes the
  record and the context, and runs the function as a getter: nothing is awaited,
  the slot and the queue are untouched. What is tracked afterwards is the value
  the getter returns, never the function itself.
\<close>

theorem C9_function_is_getter:
  assumes "typeof v = ''function''"
  shows "step oc (Call v onF onR) s =
           s\<lparr> calls := calls s @
                 [\<lparr> thisRef = \<lparr> isCurrent = True, abortController = None \<rparr>, hasContext = True,
                    onFulfilled = onF, onRejected = onR, phase = Running, returned = None \<rparr>],
              stack := length (calls s) # stack s \<rparr> \<and>
         step oc (Return r) (step oc (Call v onF onR) s) =
           next_track (length (calls s)) r
             (s\<lparr> calls := calls s @
                 [\<lparr> thisRef = \<lparr> isCurrent = True, abortController = None \<rparr>, hasContext = True,
                    onFulfilled = onF, onRejected = onR, phase = Running, returned = None \<rparr>] \<rparr>)"
  using assms by (simp add: next_enter_def Let_def)

theorem C9_function_is_getter_witness:
  "typeof (FunctionV 0) = ''function'' \<and>
   stack (step None (Call (FunctionV 0) None None) init) = [0] \<and>
   current (step None (Call (FunctionV 0) None None) init) = None \<and>
   microtasks (step None (Call (FunctionV 0) None None) init) = [] \<and>
   microtasks (step None (Return (Str ''value'')) (step None (Call (FunctionV 0) None None) init)) =
     [Notify True, Continue 0 (Fulfilled (Str ''value''))]"
proof -
  have h: "typeof (FunctionV 0) = ''function''" by simp
  from C9_function_is_getter[OF h, of None None None init "Str ''value''"] h
  show ?thesis by (simp add: eval)
qed


text \<open>
  Claim C3, as the specification states it: when the getter throws, the thrown
  value rejects the promise, and the bookkeeping of lines 156 to 163 is still
  done for the call. The first half holds; the second does not. In the first
  execution the getter throws with nothing in flight: the slot stays empty and
  no notification is queued. In the second it throws while an operation whose
  signal was read is in flight: that operation stays in the slot, stays current,
  and its controller is not aborted.
\<close>

theorem C3_bookkeeping_counterexample:
  "returned (calls throw_example ! 0) = Some (Rejected (Str ''reason'')) \<and>
   current throw_example = None \<and>
   microtasks throw_example = [] \<and>
   returned (calls throw_overlap_example ! 1) = Some (Rejected (Str ''reason'')) \<and>
   current throw_overlap_example = Some 0 \<and>
   isCurrent (thisRef (calls throw_overlap_example ! 0)) \<and>
   abortController (thisRef (calls throw_overlap_example ! 0)) = Some 0 \<and>
   \<not> aborted (controllers throw_overlap_example ! 0)"
  by (simp add: throw_example_def throw_overlap_example_def eval)

text \<open>
  Claim C3, amended. When the innermost running getter throws, the thrown value
  becomes the rejection of the promise that this call of \<^verbatim>\<open>next\<close> returned, and
  the call ends there: the slot, the flags and controllers of all records,
  the promises, the microtask queue and the logs are left as they were.
\<close>

theorem C3_getter_throw_rejects:
  assumes "stack s = c # cs" "c < length (calls s)"
  shows "returned (calls (step oc (Throw e) s) ! c) = Some (Rejected e) \<and>
         phase (calls (step oc (Throw e) s) ! c) = Done \<and>
         stack (step oc (Throw e) s) = cs \<and>
         current (step oc (Throw e) s) = current s \<and>
         microtasks (step oc (Throw e) s) = microtasks s \<and>
         controllers (step oc (Throw e) s) = controllers s \<and>
         promises (step oc (Throw e) s) = promises s \<and>
         isPendingLog (step oc (Throw e) s) = isPendingLog s \<and>
         callbackLog (step oc (Throw e) s) = callbackLog s \<and>
         uncaught (step oc (Throw e) s) = uncaught s \<and>
         length (calls (step oc (Throw e) s)) = length (calls s) \<and>
         (\<forall>i. thisRef (calls (step oc (Throw e) s) ! i) = thisRef (calls s ! i)) \<and>
         (\<forall>i. i \<noteq> c \<longrightarrow> calls (step oc (Throw e) s) ! i = calls s ! i)"
  using assms by (simp add: next_throw_def finish_self finish_other)

theorem C3_getter_throw_rejects_witness:
  "stack getter_example = [0] \<and> (0::nat) < length (calls getter_example) \<and>
   returned (calls (step None (Throw (Str ''reason'')) getter_example) ! 0) =
     Some (Rejected (Str ''reason'')) \<and>
   current (step None (Throw (Str ''reason'')) getter_example) = None \<and>
   microtasks (step None (Throw (Str ''reason'')) getter_example) = []"
proof -
  have h1: "stack getter_example = [0]" and h2: "(0::nat) < length (calls getter_example)"
    and c: "current getter_example = None" "microtasks getter_example = []"
    by (simp_all add: getter_example_eq)
  from C3_getter_throw_rejects[OF h1 h2, of None "Str ''reason''"] h1 h2 c
  show ?thesis by simp
qed


lemma failing_callback_example_fields:
  "stack failing_callback_example = []"
  "microtasks failing_callback_example = [Continue 0 (Fulfilled Null)]"
  "length (calls failing_callback_example) = 1"
  "onFulfilled (calls failing_callback_example ! 0) = Some (\<lambda>v b. Rejected (Str ''things''))"
  "onRejected (calls failing_callback_example ! 0) = Some (\<lambda>r b. Fulfilled r)"
  "isCurrent (thisRef (calls failing_callback_example ! 0))"
  "callbackLog failing_callback_example = []"
  by (simp_all add: failing_callback_example_def eval)


text \<open>
  Claim C5. When the continuation of a call that has both callbacks runs: on
  success only \<^verbatim>\<open>onFulfilled\<close> is called, and the promise returned by \<^verbatim>\<open>next\<close>
  settles with what \<^verbatim>\<open>onFulfilled\<close> did, so a value it throws is the rejection
  and \<^verbatim>\<open>onRejected\<close> never sees it; on failure only \<^verbatim>\<open>onRejected\<close> is called, and
  the promise settles with what \<^verbatim>\<open>onRejected\<close> did.
\<close>

theorem C5_callback_failure_propagates:
  assumes "stack s = []" "microtasks s = Continue c out # ts" "c < length (calls s)"
    and "onFulfilled (calls s ! c) = Some f" "onRejected (calls s ! c) = Some g"
  shows "(\<forall>v. out = Fulfilled v \<longrightarrow>
            callbackLog (step oc Tick s) =
              callbackLog s @ [OnFulfilledCall c v (isCurrent (thisRef (calls s ! c)))] \<and>
            returned (calls (step oc Tick s) ! c) =
              Some (f v (isCurrent (thisRef (calls s ! c))))) \<and>
         (\<forall>r. out = Rejected r \<longrightarrow>
            callbackLog (step oc Tick s) =
              callbackLog s @ [OnRejectedCall c r (isCurrent (thisRef (calls s ! c)))] \<and>
            returned (calls (step oc Tick s) ! c) =
              Some (g r (isCurrent (thisRef (calls s ! c)))))"
  using assms
  by (cases out) (simp_all add: next_resume_def next_complete_def Let_def finish_def)

theorem C5_callback_failure_propagates_witness:
  "callbackLog (step None Tick failing_callback_example) = [OnFulfilledCall 0 Null True] \<and>
   returned (calls (step None Tick failing_callback_example) ! 0) = Some (Rejected (Str ''things''))"
proof -
  note f = failing_callback_example_fields
  have h: "(0::nat) < length (calls failing_callback_example)" by (simp add: f)
  from C5_callback_failure_propagates[OF f(1) f(2) h f(4) f(5), of None]
  show ?thesis by (simp add: f)
qed





text \<open>
  Claim C4, as the specification states it: at every instant at most one
  record has \<^verbatim>\<open>isCurrent == true\<close>, and it is the one in the slot. The flag of a
  record is never reset when its operation completes, and a new record is made
  with the flag set before its getter runs. In the first execution a call has
  completed and a second call is in flight: both records have the flag set,
  and the signal read afterwards on the context of the first is not aborted.
  In the second a getter is running while an earlier operation is in the slot:
  both records have the flag set, and the running one is not in the slot.
\<close>

theorem C4_two_current_counterexample:
  "isCurrent (thisRef (calls completed_example ! 0)) \<and>
   isCurrent (thisRef (calls completed_example ! 1)) \<and>
   current completed_example = Some 1 \<and>
   abortController (thisRef (calls completed_example ! 0)) = Some 0 \<and>
   \<not> aborted (controllers completed_example ! 0) \<and>
   isCurrent (thisRef (calls getter_overlap_example ! 0)) \<and>
   isCurrent (thisRef (calls getter_overlap_example ! 1)) \<and>
   current getter_overlap_example = Some 0 \<and>
   stack getter_overlap_example = [1]"
  by (simp add: completed_example_def getter_overlap_example_def eval)

text \<open>
  Claim C4, amended. In every reachable state the slot is empty or holds a
  record that is awaiting its operation and has the flag set; a record that is
  awaiting its operation and has the flag set is the one in the slot, so at
  most one such record exists. Supersession is one synchronous step: every step
  that takes a call to line 156 puts its record in the slot and leaves the record
  that was there with the flag cleared.
\<close>

theorem C4_current_slot_invariant:
  assumes "reachable oc s"
  shows "(\<forall>c. current s = Some c \<longrightarrow>
            c < length (calls s) \<and> awaiting (phase (calls s ! c)) \<and>
            isCurrent (thisRef (calls s ! c))) \<and>
         (\<forall>c < length (calls s).
            awaiting (phase (calls s ! c)) \<and> isCurrent (thisRef (calls s ! c)) \<longrightarrow>
            current s = Some c) \<and>
         (\<forall>c < length (calls s). \<forall>d < length (calls s).
            awaiting (phase (calls s ! c)) \<and> isCurrent (thisRef (calls s ! c)) \<and>
            awaiting (phase (calls s ! d)) \<and> isCurrent (thisRef (calls s ! d)) \<longrightarrow> c = d) \<and>
         (\<forall>e b. tracked e s = Some b \<longrightarrow>
            current (step oc e s) = Some b \<and>
            (\<forall>p. current s = Some p \<longrightarrow> \<not> isCurrent (thisRef (calls (step oc e s) ! p))))"
proof -
  from reachable_state_inv[OF assms] have si: "slot_inv s" by (simp add: state_inv_def)
  have 1: "\<forall>c. current s = Some c \<longrightarrow>
            c < length (calls s) \<and> awaiting (phase (calls s ! c)) \<and>
            isCurrent (thisRef (calls s ! c))"
    using slot_invD1[OF si] by blast
  have 2: "\<forall>c < length (calls s).
            awaiting (phase (calls s ! c)) \<and> isCurrent (thisRef (calls s ! c)) \<longrightarrow>
            current s = Some c"
    using slot_invD2[OF si] by blast
  have 3: "\<forall>c < length (calls s). \<forall>d < length (calls s).
            awaiting (phase (calls s ! c)) \<and> isCurrent (thisRef (calls s ! c)) \<and>
            awaiting (phase (calls s ! d)) \<and> isCurrent (thisRef (calls s ! d)) \<longrightarrow> c = d"
  proof (intro allI impI)
    fix c d assume "c < length (calls s)" "d < length (calls s)"
      "awaiting (phase (calls s ! c)) \<and> isCurrent (thisRef (calls s ! c)) \<and>
       awaiting (phase (calls s ! d)) \<and> isCurrent (thisRef (calls s ! d))"
    with slot_invD2[OF si, of c] slot_invD2[OF si, of d] show "c = d" by simp
  qed
  have 4: "\<forall>e b. tracked e s = Some b \<longrightarrow>
            current (step oc e s) = Some b \<and>
            (\<forall>p. current s = Some p \<longrightarrow> \<not> isCurrent (thisRef (calls (step oc e s) ! p)))"
    using tracked_step[OF si] by blast
  from 1 2 3 4 show ?thesis by blast
qed

theorem C4_current_slot_invariant_witness:
  "reachable None superseded_example \<and>
   current superseded_example = Some 1 \<and>
   isCurrent (thisRef (calls superseded_example ! 1)) \<and>
   \<not> isCurrent (thisRef (calls superseded_example ! 0)) \<and>
   current (step None (Call Null None None) superseded_example) = Some 2 \<and>
   \<not> isCurrent (thisRef (calls (step None (Call Null None None) superseded_example) ! 1))"
proof -
  have h: "reachable None superseded_example"
    unfolding reachable_def superseded_example_def by blast
  have c: "current superseded_example = Some 1" "length (calls superseded_example) = 2"
    "awaiting (phase (calls superseded_example ! 0))"
    "tracked (Call Null None None) superseded_example = Some 2"
    by (simp_all add: superseded_example_eq)
  note T = C4_current_slot_invariant[OF h]
  note t1 = T[THEN conjunct1, rule_format]
  note t2 = T[THEN conjunct2, THEN conjunct1, rule_format]
  note t4 = T[THEN conjunct2, THEN conjunct2, THEN conjunct2, rule_format]
  have 1: "isCurrent (thisRef (calls superseded_example ! 1))" using t1[OF c(1)] by simp
  have 2: "\<not> isCurrent (thisRef (calls superseded_example ! 0))"
    using t2[of 0] c(1,2,3) by auto
  have 3: "current (step None (Call Null None None) superseded_example) = Some 2"
    using t4[OF c(4)] by (rule conjunct1)
  have 4: "\<not> isCurrent (thisRef (calls (step None (Call Null None None) superseded_example) ! 1))"
    using t4[OF c(4), THEN conjunct2, rule_format, OF c(1)] .
  show ?thesis by (intro conjI) (fact h c(1) 1 2 3 4)+
qed


text \<open>
  Claim C6. What \<^verbatim>\<open>onChangeIsPending\<close> throws changes nothing but the host's list of
  uncaught errors: two trackers that differ only in their \<^verbatim>\<open>onChangeIsPending\<close>
  and run the same events end in states that are equal in everything else, so
  the promises returned by \<^verbatim>\<open>next\<close> settle alike and the completion callbacks
  receive the same calls. The step that runs a notification whose callback
  throws removes the task, records the call, and hands the error to the host.
\<close>

theorem C6_notification_failure_isolated:
  "exec (Some f) es s = (exec (Some g) es s)\<lparr> uncaught := uncaught (exec (Some f) es s) \<rparr> \<and>
   (\<forall>t b ts e. stack t = [] \<and> microtasks t = Notify b # ts \<and> f b = Some e \<longrightarrow>
      step (Some f) Tick t =
        t\<lparr> microtasks := ts, isPendingLog := isPendingLog t @ [b], uncaught := uncaught t @ [e] \<rparr>)"
proof
  from exec_uncaught[where f = f and g = g and es = es and t = s and u = "uncaught s"]
  obtain u' where "exec (Some f) es s = (exec (Some g) es s)\<lparr> uncaught := u' \<rparr>" by auto
  then show "exec (Some f) es s = (exec (Some g) es s)\<lparr> uncaught := uncaught (exec (Some f) es s) \<rparr>"
    by (metis state.select_convs(9) state.surjective state.update_convs(9))
next
  show "\<forall>t b ts e. stack t = [] \<and> microtasks t = Notify b # ts \<and> f b = Some e \<longrightarrow>
      step (Some f) Tick t =
        t\<lparr> microtasks := ts, isPendingLog := isPendingLog t @ [b], uncaught := uncaught t @ [e] \<rparr>"
    by (simp add: Let_def)
qed

theorem C6_notification_failure_isolated_witness:
  "returned (calls (exec (Some throwing_notifier) value_call_events init) ! 0) =
     Some (Fulfilled (Str ''value'')) \<and>
   callbackLog (exec (Some throwing_notifier) value_call_events init) = [] \<and>
   uncaught (step (Some throwing_notifier) Tick
              (exec (Some throwing_notifier) [Call (Str ''value'') None None] init)) = [Str ''reason'']"
proof -
  let ?X = "exec (Some throwing_notifier) value_call_events init"
  let ?Y = "exec (Some silent_notifier) value_call_events init"
  let ?t = "exec (Some throwing_notifier) [Call (Str ''value'') None None] init"
  note T = C6_notification_failure_isolated[of throwing_notifier value_call_events init silent_notifier]
  from T have eq: "?X = ?Y\<lparr> uncaught := uncaught ?X \<rparr>" by (rule conjunct1)
  have y: "returned (calls ?Y ! 0) = Some (Fulfilled (Str ''value''))" "callbackLog ?Y = []"
    by (simp_all add: value_call_events_def silent_notifier_def eval)
  have 1: "returned (calls ?X ! 0) = Some (Fulfilled (Str ''value''))"
    by (subst eq) (simp add: y)
  have 2: "callbackLog ?X = []"
    by (subst eq) (simp add: y)
  have t: "stack ?t = [] \<and> microtasks ?t = Notify True # [Continue 0 (Fulfilled (Str ''value''))] \<and>
             throwing_notifier True = Some (Str ''reason'')" "uncaught ?t = []"
    by (simp_all add: throwing_notifier_def eval)
  from T[THEN conjunct2, rule_format, OF t(1)] t(2)
  have 3: "uncaught (step (Some throwing_notifier) Tick ?t) = [Str ''reason'']"
    by simp
  show ?thesis by (intro conjI) (fact 1 2 3)+
qed


text \<open>
  Claim C1. An operation is in flight when the slot is occupied. In every
  reachable state of a tracker that has an \<^verbatim>\<open>onChangeIsPending\<close>, each step adds to
  the notifications announced (delivered, or queued for delivery in order)
  exactly \<open>true\<close> when the slot goes from empty to occupied, exactly \<open>false\<close> when
  it goes from occupied to empty, and nothing otherwise. And for two calls
  \<^verbatim>\<open>next(a)\<close>, \<^verbatim>\<open>next(b)\<close> made when the slot is empty, \<open>b\<close> before the continuation of
  \<open>a\<close> has run, with events of no other call in between and after: once \<open>b\<close> has
  completed and the queued notifications are delivered, \<^verbatim>\<open>onChangeIsPending\<close> has
  received exactly \<open>true\<close> and then \<open>false\<close> since the start.
\<close>

theorem C1_pending_notifications:
  assumes "reachable (Some f) s"
  shows "announced (step (Some f) e s) =
           announced s @ edge (current s) (current (step (Some f) e s)) \<and>
         (\<forall>a fa ga b fb gb es1 es2.
            current s = None \<and> typeof a \<noteq> ''function'' \<and> typeof b \<noteq> ''function'' \<and>
            (\<forall>x \<in> set es1. quiet x) \<and> (\<forall>x \<in> set es2. quiet x) \<and>
            phase (calls (exec (Some f) (Call a fa ga # es1) s) ! length (calls s)) \<noteq> Done \<and>
            phase (calls (exec (Some f) (Call a fa ga # es1 @ Call b fb gb # es2) s)
                     ! Suc (length (calls s))) = Done \<and>
            notifs (microtasks (exec (Some f) (Call a fa ga # es1 @ Call b fb gb # es2) s)) = []
            \<longrightarrow>
            isPendingLog (exec (Some f) (Call a fa ga # es1 @ Call b fb gb # es2) s) =
              announced s @ [True, False])"
proof (intro conjI allI impI)
  from reachable_state_inv[OF assms] have inv: "state_inv s" .
  show "announced (step (Some f) e s) =
           announced s @ edge (current s) (current (step (Some f) e s))"
    by (rule announced_step[OF inv])
  fix a fa ga b fb gb es1 es2
  assume h: "current s = None \<and> typeof a \<noteq> ''function'' \<and> typeof b \<noteq> ''function'' \<and>
            (\<forall>x \<in> set es1. quiet x) \<and> (\<forall>x \<in> set es2. quiet x) \<and>
            phase (calls (exec (Some f) (Call a fa ga # es1) s) ! length (calls s)) \<noteq> Done \<and>
            phase (calls (exec (Some f) (Call a fa ga # es1 @ Call b fb gb # es2) s)
                     ! Suc (length (calls s))) = Done \<and>
            notifs (microtasks (exec (Some f) (Call a fa ga # es1 @ Call b fb gb # es2) s)) = []"
  let ?n = "length (calls s)"
  let ?s0 = "step (Some f) (Call a fa ga) s"
  let ?s1 = "exec (Some f) es1 ?s0"
  let ?s2 = "step (Some f) (Call b fb gb) ?s1"
  let ?s3 = "exec (Some f) es2 ?s2"
  have ex1: "exec (Some f) (Call a fa ga # es1) s = ?s1" by simp
  have ex3: "exec (Some f) (Call a fa ga # es1 @ Call b fb gb # es2) s = ?s3"
    by (simp add: exec_append)
  from h have cur: "current s = None" and ta: "typeof a \<noteq> ''function''"
    and tb: "typeof b \<noteq> ''function''" and q1: "\<forall>x \<in> set es1. quiet x"
    and q2: "\<forall>x \<in> set es2. quiet x" by simp_all
  from h have nd: "phase (calls ?s1 ! ?n) \<noteq> Done" unfolding ex1 by simp
  from h have dn: "phase (calls ?s3 ! Suc ?n) = Done" and dr: "notifs (microtasks ?s3) = []"
    unfolding ex3 by simp_all
  have inv0: "state_inv ?s0" by (rule state_inv_step[OF inv])
  have l0: "length (calls ?s0) = Suc ?n" by (simp add: next_enter_length)
  have c0: "current ?s0 = Some ?n" "awaiting (phase (calls ?s0 ! ?n))"
    using next_enter_value(1,2)[OF ta, of fa ga s] by simp_all
  have a0: "announced ?s0 = announced s @ [True]"
    using announced_step[OF inv, of f "Call a fa ga"] cur c0(1) by simp
  have t0: "if phase (calls ?s0 ! ?n) = Done then current ?s0 = None else current ?s0 = Some ?n"
    using c0 by auto
  have k0: "?n < length (calls ?s0)" using l0 by simp
  note r1 = quiet_exec[OF inv0 q1 k0 t0, of f]
  have inv1: "state_inv ?s1" by (rule state_inv_exec[OF inv0])
  have l1: "length (calls ?s1) = Suc ?n" using r1 l0 by simp
  have c1: "current ?s1 = Some ?n" using r1 nd by simp
  have a1: "announced ?s1 = announced s @ [True]" using r1 nd a0 by simp
  have inv2: "state_inv ?s2" by (rule state_inv_step[OF inv1])
  have l2: "length (calls ?s2) = Suc (Suc ?n)" using l1 by (simp add: next_enter_length)
  have c2: "current ?s2 = Some (Suc ?n)" "awaiting (phase (calls ?s2 ! Suc ?n))"
    using next_enter_value(1,2)[OF tb, of fb gb ?s1] l1 by simp_all
  have a2: "announced ?s2 = announced s @ [True]"
    using announced_step[OF inv1, of f "Call b fb gb"] c1 c2(1) a1 by simp
  have t2: "if phase (calls ?s2 ! Suc ?n) = Done then current ?s2 = None
            else current ?s2 = Some (Suc ?n)"
    using c2 by auto
  have nd2: "phase (calls ?s2 ! Suc ?n) \<noteq> Done" using c2(2) by auto
  have k2: "Suc ?n < length (calls ?s2)" using l2 by simp
  note r3 = quiet_exec[OF inv2 q2 k2 t2, of f]
  have a3: "announced ?s3 = announced s @ [True, False]" using r3 nd2 dn a2 by simp
  then have "isPendingLog ?s3 = announced s @ [True, False]"
    using dr by (simp add: announced_def)
  then show "isPendingLog (exec (Some f) (Call a fa ga # es1 @ Call b fb gb # es2) s) =
              announced s @ [True, False]"
    unfolding ex3 .
qed


theorem C1_pending_notifications_witness:
  "reachable (Some silent_notifier) init \<and>
   announced (step (Some silent_notifier) (Call Null None None) init) = [True] \<and>
   isPendingLog (exec (Some silent_notifier)
      (Call (PromiseV 0) None None # [] @ Call Null None None # [Tick, Tick, Tick]) init) =
     [True, False]"
proof -
  have r: "reachable (Some silent_notifier) init" by (rule reachable_init)
  note T = C1_pending_notifications[OF r]
  have 1: "announced (step (Some silent_notifier) (Call Null None None) init) = [True]"
    using T[of "Call Null None None", THEN conjunct1]
    by (simp add: announced_def init_def next_enter_value(1))
  have h: "current init = None \<and> typeof (PromiseV 0) \<noteq> ''function'' \<and> typeof Null \<noteq> ''function'' \<and>
            (\<forall>x \<in> set []. quiet x) \<and> (\<forall>x \<in> set [Tick, Tick, Tick]. quiet x) \<and>
            phase (calls (exec (Some silent_notifier) (Call (PromiseV 0) None None # []) init)
                     ! length (calls init)) \<noteq> Done \<and>
            phase (calls (exec (Some silent_notifier)
                     (Call (PromiseV 0) None None # [] @ Call Null None None # [Tick, Tick, Tick]) init)
                     ! Suc (length (calls init))) = Done \<and>
            notifs (microtasks (exec (Some silent_notifier)
                     (Call (PromiseV 0) None None # [] @ Call Null None None # [Tick, Tick, Tick]) init)) = []"
    by (simp add: eval silent_notifier_def)
  have a: "announced init = []" by (simp add: announced_def init_def)
  from T[of Tick, THEN conjunct2, rule_format, OF h]
  have 2: "isPendingLog (exec (Some silent_notifier)
      (Call (PromiseV 0) None None # [] @ Call Null None None # [Tick, Tick, Tick]) init) =
     [True, False]"
    unfolding a by simp
  show ?thesis by (intro conjI) (fact r 1 2)+
qed

text \<open>
  The test of the repository for this property: the second call is a getter
  that resolves the promise of the first call before it returns.
\<close>

lemma test_no_redundant_notifications:
  "isPendingLog (exec (Some silent_notifier)
     [Call (PromiseV 0) None None, Call (FunctionV 0) None None, Settle 0 (Fulfilled Undefined),
      Return Undefined, Tick, Tick, Tick, Tick] init) = [True, False]"
  by (simp add: eval silent_notifier_def)



section \<open>Tests of the repository\<close>

text \<open>
  Tests of the repository's test file, as executions: a second promise after the
  first has completed; a superseded promise that resolves; the abort on
  supersession; no controller without a read of the signal; a rejection passed
  on; the result of \<^verbatim>\<open>onFulfilled\<close> as the result of \<^verbatim>\<open>next\<close>.
\<close>

lemma test_true_again_for_a_second_promise:
  "isPendingLog (exec (Some silent_notifier)
     [Call Null None None, Tick, Tick, Tick, Call Null None None, Tick, Tick, Tick] init) =
     [True, False, True, False]"
  by (simp add: eval silent_notifier_def)

lemma test_no_false_when_a_non_current_promise_resolves:
  "isPendingLog (exec (Some silent_notifier)
     [Call (PromiseV 0) None None, Call (PromiseV 1) None None, Tick,
      Settle 0 (Fulfilled Undefined), Tick] init) = [True]"
  by (simp add: eval silent_notifier_def)

lemma test_aborts_when_a_second_promise_is_provided:
  "\<not> aborted (controllers (exec None
     [Call (FunctionV 0) None None, GetSignal 0, Return (PromiseV 0)] init) ! 0) \<and>
   controllers (exec None
     [Call (FunctionV 0) None None, GetSignal 0, Return (PromiseV 0),
      Call (PromiseV 1) None None] init) ! 0 =
     \<lparr> aborted = True, reason = OnePromiseAbortError \<rparr>"
  by (simp add: eval)

lemma test_does_not_create_AbortController:
  "controllers (exec None [Call (FunctionV 0) None None, Return Undefined, Tick, Tick] init) = []"
  by (simp add: eval)

lemma test_rejects_with_the_same_reason:
  "returned (calls (exec None
     [Settle 0 (Rejected (Str ''reason'')), Call (PromiseV 0) None None, Tick, Tick] init) ! 0) =
     Some (Rejected (Str ''reason''))"
  by (simp add: eval)

lemma test_resolves_with_the_callback_result:
  "returned (calls (exec None
     [Settle 0 (Fulfilled (Num 1)),
      Call (PromiseV 0) (Some (\<lambda>v cur. case v of Num n \<Rightarrow> Fulfilled (Num (n + 1)) | _ \<Rightarrow> Rejected v)) None,
      Tick, Tick] init) ! 0) = Some (Fulfilled (Num 2))"
  by (simp add: eval)

end
